theory Spec2Isabelle
  imports Complex_Main "HOL-Library.Word"
begin

section \<open>Python values\<close>

text \<open>
  A Python \<open>str\<close> on which the program matches, folds case or trims (the query and
  what is cut from it) is the list of its code points, \<open>pystr\<close>. A text that is only
  compared with a literal or passed along (tool names, JSON texts, dictionary keys, the
  messages of the Tool Host) is the list of the bytes of its UTF-8 encoding, \<open>string\<close>,
  on which equality is equality of the texts. Floats are carried as rationals; the only
  float behaviour the model keeps is that true division by zero raises.
\<close>

datatype exc =
    ZeroDivisionError
  | TypeError
  | OSError
  | JSONDecodeError
  | IndexError
  | AttributeError
  | EOFError
  | ExternalError string

datatype jv =
    JNone
  | JBool bool
  | JInt int
  | JFloat rat
  | JStr string
  | JList "jv list"
  | JDict "(string \<times> jv) list"

type_synonym pydict = "(string \<times> jv) list"

abbreviation bslash :: char where
  "bslash \<equiv> CHR 0x5C"

abbreviation newline :: char where
  "newline \<equiv> CHR 0x0A"

abbreviation creturn :: char where
  "creturn \<equiv> CHR 0x0D"

abbreviation dquote :: char where
  "dquote \<equiv> CHR 0x22"

type_synonym pystr = "nat list"

text \<open>The code point of an ASCII character, and the text of an ASCII literal.\<close>

definition cp :: "char \<Rightarrow> nat" where
  "cp c = of_char c"

definition ascii :: "string \<Rightarrow> pystr" where
  "ascii s = map cp s"

text \<open>The UTF-8 encoding of a text.\<close>

definition utf8_char :: "nat \<Rightarrow> string" where
  "utf8_char c =
     (if c < 0x80 then [char_of c]
      else if c < 0x800 then [char_of (0xC0 + c div 64), char_of (0x80 + c mod 64)]
      else if c < 0x10000
        then [char_of (0xE0 + c div 4096), char_of (0x80 + c div 64 mod 64),
              char_of (0x80 + c mod 64)]
      else [char_of (0xF0 + c div 262144), char_of (0x80 + c div 4096 mod 64),
            char_of (0x80 + c div 64 mod 64), char_of (0x80 + c mod 64)])"

definition utf8 :: "pystr \<Rightarrow> string" where
  "utf8 s = concat (map utf8_char s)"

text \<open>\<open>int(x)\<close> on a float: truncation towards zero.\<close>

definition py_int :: "rat \<Rightarrow> int" where
  "py_int r = (if 0 \<le> r then \<lfloor>r\<rfloor> else \<lceil>r\<rceil>)"

text \<open>\<open>a / b\<close> with a float divisor.\<close>

definition py_truediv :: "rat \<Rightarrow> rat \<Rightarrow> exc + rat" where
  "py_truediv a b = (if b = 0 then Inl ZeroDivisionError else Inr (a / b))"

function str_nat :: "nat \<Rightarrow> string" where
  "str_nat n =
     (if n < 10 then [char_of (48 + n)]
      else str_nat (n div 10) @ [char_of (48 + n mod 10)])"
  by pat_completeness auto
termination
  by (relation "measure id") auto

definition str_int :: "int \<Rightarrow> string" where
  "str_int i = (if i < 0 then CHR ''-'' # str_nat (nat (- i)) else str_nat (nat i))"

section \<open>Tool Host (server.py)\<close>

subsection \<open>The video capture\<close>

text \<open>
  What \<open>cv2.VideoCapture(path)\<close> gives: whether the handle is open, the properties
  \<open>cap.get\<close> reports (floats), and the frames that successive \<open>cap.read()\<close> calls
  deliver before the first read that fails. A frame is a rectangular array of
  (B, G, R) bytes, here the list of its rows.
\<close>

type_synonym pixel = "8 word \<times> 8 word \<times> 8 word"

type_synonym frame = "pixel list list"

record capture =
  opened :: bool
  prop_fps :: rat
  prop_frame_count :: rat
  prop_frame_width :: rat
  prop_frame_height :: rat
  frames :: "frame list"

definition frame_height :: "frame \<Rightarrow> nat" where
  "frame_height f = length f"

definition frame_width :: "frame \<Rightarrow> nat" where
  "frame_width f = (case f of [] \<Rightarrow> 0 | r # _ \<Rightarrow> length r)"

definition rectangular :: "frame \<Rightarrow> bool" where
  "rectangular f = list_all (\<lambda>r. length r = frame_width f) f"

text \<open>The text of the error payload, \<open>"\<dots>"\<close> in server.py line 43 and 79.\<close>

definition cannot_open_msg :: string where
  "cannot_open_msg =
     [CHR 0xE6, CHR 0x97, CHR 0xA0, CHR 0xE6, CHR 0xB3, CHR 0x95, CHR 0xE6, CHR 0x89,
      CHR 0x93, CHR 0xE5, CHR 0xBC, CHR 0x80, CHR 0xE8, CHR 0xA7, CHR 0x86, CHR 0xE9,
      CHR 0xA2, CHR 0x91, CHR 0xE6, CHR 0x96, CHR 0x87, CHR 0xE4, CHR 0xBB, CHR 0xB6]"

definition binarization_note :: string where
  "binarization_note =
     [CHR 0xE4, CHR 0xBA, CHR 0x8C, CHR 0xE5, CHR 0x80, CHR 0xBC, CHR 0xE5, CHR 0x8C,
      CHR 0x96, CHR 0xE5, CHR 0xA4, CHR 0x84, CHR 0xE7, CHR 0x90, CHR 0x86, CHR 0xE5,
      CHR 0xAE, CHR 0x8C, CHR 0xE6, CHR 0x88, CHR 0x90, CHR 0xEF, CHR 0xBC, CHR 0x8C,
      CHR 0xE6, CHR 0x9C, CHR 0xAA, CHR 0xE4, CHR 0xBF, CHR 0x9D, CHR 0xE5, CHR 0xAD,
      CHR 0x98, CHR 0xE5, CHR 0x88, CHR 0xB0, CHR 0xE6, CHR 0x9C, CHR 0xAC, CHR 0xE5,
      CHR 0x9C, CHR 0xB0, CHR 0xE6, CHR 0x96, CHR 0x87, CHR 0xE4, CHR 0xBB, CHR 0xB6]"

subsection \<open>numpy and OpenCV on one frame\<close>

definition pixels :: "frame \<Rightarrow> pixel list" where
  "pixels f = concat f"

definition mean_rat :: "nat list \<Rightarrow> rat" where
  "mean_rat xs = of_nat (sum_list xs) / of_nat (length xs)"

text \<open>\<open>np.mean(frame, axis=(0, 1)).tolist()\<close>: the mean of each channel.\<close>

definition avg_color :: "frame \<Rightarrow> jv" where
  "avg_color f =
     JList [JFloat (mean_rat (map (\<lambda>(b, g, r). unat b) (pixels f))),
            JFloat (mean_rat (map (\<lambda>(b, g, r). unat g) (pixels f))),
            JFloat (mean_rat (map (\<lambda>(b, g, r). unat r) (pixels f)))]"

text \<open>
  \<open>cv2.cvtColor(frame, cv2.COLOR_BGR2GRAY)\<close>: the luminance of a pixel is OpenCV's and
  is a parameter \<open>lum\<close> of the model.
\<close>

definition cvtColor_gray :: "(pixel \<Rightarrow> 8 word) \<Rightarrow> frame \<Rightarrow> 8 word list list" where
  "cvtColor_gray lum f = map (map lum) f"

text \<open>
  \<open>cv2.threshold(gray, threshold, 255, cv2.THRESH_BINARY)\<close>: 255 where the source
  pixel is greater than the threshold, 0 elsewhere.
\<close>

definition threshold_binary :: "int \<Rightarrow> 8 word list list \<Rightarrow> 8 word list list" where
  "threshold_binary t g = map (map (\<lambda>p. if t < uint p then 255 else 0)) g"

text \<open>\<open>np.sum(binary_frame == v)\<close>.\<close>

definition count_eq :: "8 word \<Rightarrow> 8 word list list \<Rightarrow> int" where
  "count_eq v b = int (length (filter (\<lambda>p. p = v) (concat b)))"

subsection \<open>video_inference_model\<close>

text \<open>
  The loop of lines 54 to 60: one iteration for each frame read, ended by the first
  read that fails.
\<close>

fun inference_loop :: "frame list \<Rightarrow> jv list \<Rightarrow> jv list" where
  "inference_loop [] color_analysis = color_analysis"
| "inference_loop (frame # rest) color_analysis =
     inference_loop rest (color_analysis @ [avg_color frame])"

text \<open>
  The result is the returned dictionary or the exception raised, paired with whether
  \<open>cap.release()\<close> was called. The release is in the \<open>finally\<close> of the loop only:
  the return of line 43 and the division of line 48 come before the \<open>try\<close>.
\<close>

definition video_inference_model ::
  "(string \<Rightarrow> capture) \<Rightarrow> string \<Rightarrow> (exc + pydict) \<times> bool" where
  "video_inference_model VideoCapture video_path =
     (let cap = VideoCapture video_path in
      if \<not> opened cap then (Inr [(''error'', JStr cannot_open_msg)], False)
      else
        let fps = prop_fps cap;
            frame_count = py_int (prop_frame_count cap)
        in case py_truediv (of_int frame_count) fps of
             Inl e \<Rightarrow> (Inl e, False)
           | Inr duration \<Rightarrow>
               let color_analysis = inference_loop (frames cap) []
               in (Inr [(''fps'', JFloat fps),
                        (''frame_count'', JInt frame_count),
                        (''duration'', JFloat duration),
                        (''color_analysis'', JList color_analysis)], True))"

subsection \<open>video_binarization\<close>

record binary_stats =
  white_pixel_counts :: "int list"
  black_pixel_counts :: "int list"
  frame_brightness :: "rat list"

fun binarization_loop ::
  "(pixel \<Rightarrow> 8 word) \<Rightarrow> int \<Rightarrow> frame list \<Rightarrow> binary_stats \<times> nat \<Rightarrow> binary_stats \<times> nat" where
  "binarization_loop lum threshold [] st = st"
| "binarization_loop lum threshold (frame # rest) (stats, processed_frames) =
     (let gray_frame = cvtColor_gray lum frame;
          binary_frame = threshold_binary threshold gray_frame;
          white_pixels = count_eq 255 binary_frame;
          black_pixels = count_eq 0 binary_frame;
          avg_brightness = mean_rat (map unat (concat gray_frame))
      in binarization_loop lum threshold rest
           (stats\<lparr>white_pixel_counts := white_pixel_counts stats @ [white_pixels],
                  black_pixel_counts := black_pixel_counts stats @ [black_pixels],
                  frame_brightness := frame_brightness stats @ [avg_brightness]\<rparr>,
            processed_frames + 1))"

definition stats_dict :: "binary_stats \<Rightarrow> jv" where
  "stats_dict stats =
     JDict [(''white_pixel_counts'', JList (map JInt (white_pixel_counts stats))),
            (''black_pixel_counts'', JList (map JInt (black_pixel_counts stats))),
            (''frame_brightness'', JList (map JFloat (frame_brightness stats)))]"

definition video_binarization ::
  "(pixel \<Rightarrow> 8 word) \<Rightarrow> (string \<Rightarrow> capture) \<Rightarrow> string \<Rightarrow> int \<Rightarrow> (exc + pydict) \<times> bool" where
  "video_binarization lum VideoCapture video_path threshold =
     (let cap = VideoCapture video_path in
      if \<not> opened cap then (Inr [(''error'', JStr cannot_open_msg)], False)
      else
        let fps = prop_fps cap;
            frame_count = py_int (prop_frame_count cap);
            width = py_int (prop_frame_width cap);
            height = py_int (prop_frame_height cap)
        in case py_truediv (of_int frame_count) fps of
             Inl e \<Rightarrow> (Inl e, False)
           | Inr duration \<Rightarrow>
               let (stats, processed_frames) =
                     binarization_loop lum threshold (frames cap)
                       (\<lparr>white_pixel_counts = [], black_pixel_counts = [],
                         frame_brightness = []\<rparr>, 0)
               in (Inr [(''fps'', JFloat fps),
                        (''frame_count'', JInt frame_count),
                        (''duration'', JFloat duration),
                        (''resolution'', JStr (str_int width @ ''x'' @ str_int height)),
                        (''binary_statistics'', stats_dict stats),
                        (''success'', JBool True),
                        (''note'', JStr binarization_note)], True))"

subsection \<open>The two published tools\<close>

definition inference_video :: "(string \<Rightarrow> capture) \<Rightarrow> string \<Rightarrow> (exc + pydict) \<times> bool" where
  "inference_video VideoCapture path = video_inference_model VideoCapture path"

definition process_video_binarization ::
  "(pixel \<Rightarrow> 8 word) \<Rightarrow> (string \<Rightarrow> capture) \<Rightarrow> string \<Rightarrow> int \<Rightarrow> (exc + pydict) \<times> bool" where
  "process_video_binarization lum VideoCapture path threshold =
     video_binarization lum VideoCapture path threshold"

section \<open>Regular expressions (module re)\<close>

text \<open>
  The fragment of \<open>re\<close> that the two patterns of client.py use: character sets,
  greedy and lazy stars of a set, and an alternation of literal words. A pattern is the
  list of its items. The matcher is the backtracking matcher of \<open>re\<close>: a greedy star
  tries the longest run first, a lazy star the shortest, an alternation its words from
  left to right.

  With the flag \<open>ic\<close> (re.IGNORECASE) a character belongs to a set when it or one of
  its case variants does. For the sets of ASCII characters that the patterns use, the
  variants that matter are the other case of an ASCII letter and, for the four letters
  outside ASCII that Unicode case mapping sends to ASCII ones, those: U+0130 and
  U+0131 are variants of \<open>i\<close>, U+017F of \<open>s\<close>, U+212A of \<open>k\<close>.
\<close>

definition ascii_lower :: "nat \<Rightarrow> nat" where
  "ascii_lower c = (if 65 \<le> c \<and> c \<le> 90 then c + 32 else c)"

definition case_variants :: "nat \<Rightarrow> nat list" where
  "case_variants c =
     (if 65 \<le> c \<and> c \<le> 90 then [c + 32]
      else if 97 \<le> c \<and> c \<le> 122 then [c - 32]
      else if c = 0x130 \<or> c = 0x131 then [cp CHR ''i'', cp CHR ''I'']
      else if c = 0x17F then [cp CHR ''s'', cp CHR ''S'']
      else if c = 0x212A then [cp CHR ''k'', cp CHR ''K'']
      else [])"

datatype cset =
    Chars "(nat \<times> nat) list"
  | NotChars "(nat \<times> nat) list"
  | AnyChar

definition lit :: "nat \<Rightarrow> cset" where
  "lit c = Chars [(c, c)]"

definition in_ranges :: "(nat \<times> nat) list \<Rightarrow> nat \<Rightarrow> bool" where
  "in_ranges rs c = list_ex (\<lambda>(lo, hi). lo \<le> c \<and> c \<le> hi) rs"

definition in_set :: "bool \<Rightarrow> (nat \<times> nat) list \<Rightarrow> nat \<Rightarrow> bool" where
  "in_set ic rs c =
     (if ic then in_ranges rs c \<or> list_ex (in_ranges rs) (case_variants c)
      else in_ranges rs c)"

fun cmatch :: "bool \<Rightarrow> cset \<Rightarrow> nat \<Rightarrow> bool" where
  "cmatch ic (Chars rs) c = in_set ic rs c"
| "cmatch ic (NotChars rs) c = (\<not> in_set ic rs c)"
| "cmatch ic AnyChar c = (c \<noteq> cp newline)"

datatype atom =
    One cset
  | Star cset
  | LazyStar cset
  | Alt "pystr list"

fun lit_match :: "bool \<Rightarrow> pystr \<Rightarrow> pystr \<Rightarrow> pystr option" where
  "lit_match ic [] s = Some s"
| "lit_match ic (l # ls) [] = None"
| "lit_match ic (l # ls) (c # cs) = (if cmatch ic (lit l) c then lit_match ic ls cs else None)"

fun atom_size :: "atom \<Rightarrow> nat" where
  "atom_size (Alt ws) = Suc (length ws)"
| "atom_size _ = 1"

text \<open>
  \<open>rmatch ic p s\<close> matches the pattern \<open>p\<close> at the start of \<open>s\<close> and gives the text
  left after the first match in the matcher's order, or None.
\<close>

function rmatch :: "bool \<Rightarrow> atom list \<Rightarrow> pystr \<Rightarrow> pystr option" where
  "rmatch ic [] s = Some s"
| "rmatch ic (One k # as) [] = None"
| "rmatch ic (One k # as) (c # cs) = (if cmatch ic k c then rmatch ic as cs else None)"
| "rmatch ic (Star k # as) [] = rmatch ic as []"
| "rmatch ic (Star k # as) (c # cs) =
     (if cmatch ic k c
      then (case rmatch ic (Star k # as) cs of
              Some r \<Rightarrow> Some r
            | None \<Rightarrow> rmatch ic as (c # cs))
      else rmatch ic as (c # cs))"
| "rmatch ic (LazyStar k # as) [] = rmatch ic as []"
| "rmatch ic (LazyStar k # as) (c # cs) =
     (case rmatch ic as (c # cs) of
        Some r \<Rightarrow> Some r
      | None \<Rightarrow> if cmatch ic k c then rmatch ic (LazyStar k # as) cs else None)"
| "rmatch ic (Alt [] # as) s = None"
| "rmatch ic (Alt (w # ws) # as) s =
     (case (case lit_match ic w s of None \<Rightarrow> None | Some s' \<Rightarrow> rmatch ic as s') of
        Some r \<Rightarrow> Some r
      | None \<Rightarrow> rmatch ic (Alt ws # as) s)"
  by pat_completeness auto
termination
proof (relation "measures [\<lambda>(ic, p, s). length s, \<lambda>(ic, p, s). sum_list (map atom_size p)]")
  have shorter: "lit_match ic w s = Some s' \<Longrightarrow> length s' \<le> length s" for ic w s s'
    by (induction ic w s rule: lit_match.induct) (auto split: if_splits)
  fix ic :: bool and w :: pystr and ws :: "pystr list" and as :: "atom list" and s x2 :: pystr
  assume "lit_match ic w s = Some x2"
  then have "length x2 \<le> length s" by (rule shorter)
  then show "((ic, as, x2), ic, Alt (w # ws) # as, s)
      \<in> measures [\<lambda>(ic, p, s). length s, \<lambda>(ic, p, s). sum_list (map atom_size p)]"
    by (auto simp: le_less)
qed auto

text \<open>
  \<open>re.search\<close>: the first start position, from the left, at which the pattern matches.
  The match is given as the text before it, the matched text (group 1 of both patterns is
  the whole match) and the text after it.
\<close>

fun re_search :: "bool \<Rightarrow> atom list \<Rightarrow> pystr \<Rightarrow> (pystr \<times> pystr \<times> pystr) option" where
  "re_search ic p [] = (case rmatch ic p [] of Some r \<Rightarrow> Some ([], [], []) | None \<Rightarrow> None)"
| "re_search ic p (c # cs) =
     (case rmatch ic p (c # cs) of
        Some r \<Rightarrow> Some ([], take (length (c # cs) - length r) (c # cs), r)
      | None \<Rightarrow>
          (case re_search ic p cs of
             None \<Rightarrow> None
           | Some (pre, m, post) \<Rightarrow> Some (c # pre, m, post)))"

text \<open>
  \<open>re.sub(pattern, '', s)\<close>: every match found scanning from the left is deleted and
  the scan goes on after it; an empty match deletes nothing.
\<close>

function re_sub_empty :: "bool \<Rightarrow> atom list \<Rightarrow> pystr \<Rightarrow> pystr" where
  "re_sub_empty ic p [] = []"
| "re_sub_empty ic p (c # cs) =
     (case rmatch ic p (c # cs) of
        Some r \<Rightarrow>
          if length r < length (c # cs) then re_sub_empty ic p r
          else c # re_sub_empty ic p cs
      | None \<Rightarrow> c # re_sub_empty ic p cs)"
  by pat_completeness auto
termination
  by (relation "measure (\<lambda>(ic, p, s). length s)") auto

text \<open>
  \<open>str.strip()\<close> removes the characters for which \<open>str.isspace()\<close> holds from both
  ends.
\<close>

definition py_isspace :: "nat \<Rightarrow> bool" where
  "py_isspace c =
     ((9 \<le> c \<and> c \<le> 13) \<or> (28 \<le> c \<and> c \<le> 32) \<or> c = 0x85 \<or> c = 0xA0 \<or> c = 0x1680
      \<or> (0x2000 \<le> c \<and> c \<le> 0x200A) \<or> c = 0x2028 \<or> c = 0x2029 \<or> c = 0x202F
      \<or> c = 0x205F \<or> c = 0x3000)"

definition strip :: "pystr \<Rightarrow> pystr" where
  "strip s = rev (dropWhile py_isspace (rev (dropWhile py_isspace s)))"

section \<open>Orchestrator (client.py): path and question extraction\<close>

definition video_exts :: "pystr list" where
  "video_exts = map ascii [''mp4'', ''avi'', ''mov'', ''mkv'', ''flv'']"

definition drive_letter :: cset where
  "drive_letter = Chars [(cp CHR ''a'', cp CHR ''z''), (cp CHR ''A'', cp CHR ''Z'')]"

definition illegal_chars :: "nat list" where
  "illegal_chars = map cp (''<>:'' @ [dquote] @ ''|?*'' @ [newline, creturn])"

text \<open>The pattern of lines 60 and 75.\<close>

definition strict_pattern :: "atom list" where
  "strict_pattern =
     [One drive_letter, One (lit (cp CHR '':'')),
      One (Chars [(cp bslash, cp bslash), (cp CHR ''/'', cp CHR ''/'')]),
      Star (NotChars (map (\<lambda>c. (c, c)) illegal_chars)),
      One (lit (cp CHR ''.'')), Alt video_exts]"

text \<open>The pattern of line 66.\<close>

definition simple_pattern :: "atom list" where
  "simple_pattern =
     [One drive_letter, One (lit (cp CHR '':'')), One (lit (cp bslash)),
      LazyStar AnyChar,
      One (lit (cp CHR ''.'')), Alt video_exts]"

definition extract_video_path :: "pystr \<Rightarrow> pystr option" where
  "extract_video_path query =
     (case re_search True strict_pattern query of
        Some (pre, group1, post) \<Rightarrow> Some group1
      | None \<Rightarrow>
          (case re_search True simple_pattern query of
             Some (pre, group1, post) \<Rightarrow> Some group1
           | None \<Rightarrow> None))"

text \<open>The default question of line 83, eleven code points.\<close>

definition default_question :: pystr where
  "default_question =
     [0x8FD9, 0x6BB5, 0x89C6, 0x9891, 0x7684, 0x5185, 0x5BB9, 0x662F, 0x4EC0, 0x4E48, 0xFF1F]"

text \<open>
  Line 76 computes the question with re.IGNORECASE; line 79 assigns it again from a
  substitution without the flag, and that value is the one tested and returned.
\<close>

definition extract_text_question :: "pystr \<Rightarrow> pystr" where
  "extract_text_question query =
     (let text_question = strip (re_sub_empty True strict_pattern query);
          text_question = strip (re_sub_empty False strict_pattern query)
      in if text_question = [] then default_question else text_question)"

subsection \<open>Well-formed paths, in the words of the specification\<close>

text \<open>
  A drive-letter-prefixed path ending in a video extension: a letter, a colon, a
  separator, a body, a dot and one of the five extensions in any letter case. The strict
  form takes either slash as separator and a body without the characters illegal in a
  path; the loose form takes the backslash and any body on one line. Letter case is
  that of re.IGNORECASE: besides the 52 ASCII letters, U+0130, U+0131, U+017F and
  U+212A stand for a drive letter, U+0130 and U+0131 for the \<open>i\<close> and U+212A for the
  \<open>k\<close> of an extension.
\<close>

definition is_letter :: "nat \<Rightarrow> bool" where
  "is_letter c = ((65 \<le> c \<and> c \<le> 90) \<or> (97 \<le> c \<and> c \<le> 122))"

definition drive_char :: "nat \<Rightarrow> bool" where
  "drive_char c = (is_letter c \<or> c = 0x130 \<or> c = 0x131 \<or> c = 0x17F \<or> c = 0x212A)"

definition fold_ext :: "nat \<Rightarrow> nat" where
  "fold_ext c =
     (if c = 0x212A then cp CHR ''k''
      else if c = 0x130 \<or> c = 0x131 then cp CHR ''i''
      else ascii_lower c)"

definition dot_ext :: "pystr \<Rightarrow> bool" where
  "dot_ext t =
     (case t of [] \<Rightarrow> False | d # e \<Rightarrow> d = cp CHR ''.'' \<and> map fold_ext e \<in> set video_exts)"

definition path_like :: "(nat \<Rightarrow> bool) \<Rightarrow> (nat \<Rightarrow> bool) \<Rightarrow> pystr \<Rightarrow> bool" where
  "path_like sep body p =
     (case p of
        d # col # s # rest \<Rightarrow>
          drive_char d \<and> col = cp CHR '':'' \<and> sep s \<and> 4 \<le> length rest
          \<and> list_all body (take (length rest - 4) rest)
          \<and> dot_ext (drop (length rest - 4) rest)
      | _ \<Rightarrow> False)"

definition strict_path :: "pystr \<Rightarrow> bool" where
  "strict_path p =
     path_like (\<lambda>c. c = cp bslash \<or> c = cp CHR ''/'') (\<lambda>c. c \<notin> set illegal_chars) p"

definition loose_path :: "pystr \<Rightarrow> bool" where
  "loose_path p = path_like (\<lambda>c. c = cp bslash) (\<lambda>c. c \<noteq> cp newline) p"

text \<open>\<open>occurs good q k p\<close>: the text \<open>p\<close> is well formed and stands in \<open>q\<close> at offset \<open>k\<close>.\<close>

definition occurs :: "(pystr \<Rightarrow> bool) \<Rightarrow> pystr \<Rightarrow> nat \<Rightarrow> pystr \<Rightarrow> bool" where
  "occurs good q k p = (k + length p \<le> length q \<and> take (length p) (drop k q) = p \<and> good p)"

section \<open>Orchestrator (client.py): one query and the chat loop\<close>

subsection \<open>Conversation, tool manifest and gateway responses\<close>

datatype content_part = VideoUrl string | TextPart pystr

datatype turn_content = Text pystr | Parts "content_part list"

record tool_call =
  call_id :: string
  function_name :: string
  function_arguments :: string

record chat_message =
  content :: "string option"
  tool_calls :: "tool_call list"

record choice =
  finish_reason :: string
  message :: chat_message

text \<open>A turn of the conversation: the dictionaries appended to \<open>messages\<close>.\<close>

datatype turn =
    UserTurn turn_content
  | AssistantTurn chat_message
  | ToolTurn string string

record tool =
  tool_name :: string
  tool_description :: string
  inputSchema :: jv

record request =
  req_messages :: "turn list"
  req_tools :: "tool list option"

subsection \<open>The outside world\<close>

text \<open>
  The Tool Host session, the Model Gateway, the file system and the terminal are
  outside the repository. Each is a function of a state \<open>'w\<close> of the outside world that
  returns a result or the exception raised, and the next state. \<open>json_loads\<close> is
  \<open>json.loads\<close> and \<open>py_str\<close> the text an f-string gives for a value. A tool result is
  the list of the texts of its content items.
\<close>

record 'w services =
  list_tools :: "'w \<Rightarrow> (exc + tool list) \<times> 'w"
  create :: "request \<Rightarrow> 'w \<Rightarrow> (exc + choice list) \<times> 'w"
  call_tool :: "string \<Rightarrow> jv \<Rightarrow> 'w \<Rightarrow> (exc + string list) \<times> 'w"
  read_b64 :: "pystr \<Rightarrow> 'w \<Rightarrow> (exc + string) \<times> 'w"
  input_line :: "'w \<Rightarrow> (exc + pystr) \<times> 'w"
  json_loads :: "string \<Rightarrow> exc + jv"
  py_str :: "jv \<Rightarrow> pystr"

datatype printed =
    Banner
  | ToolDescription "tool list"
  | CallingTool string jv
  | Answer "string option"
  | ErrorLine exc

text \<open>Every interaction with the outside is logged, in order.\<close>

datatype event =
    ListTools
  | Create request
  | CallTool string jv
  | OpenFile pystr
  | Input
  | Print printed

subsection \<open>Sequencing with exceptions\<close>

type_synonym ('w, 'a) act = "'w \<times> event list \<Rightarrow> (exc + 'a) \<times> 'w \<times> event list"

definition ret :: "'a \<Rightarrow> ('w, 'a) act" where
  "ret a s = (Inr a, s)"

definition raise :: "exc \<Rightarrow> ('w, 'a) act" where
  "raise e s = (Inl e, s)"

definition lift :: "exc + 'a \<Rightarrow> ('w, 'a) act" where
  "lift r s = (r, s)"

definition bind_act :: "('w, 'a) act \<Rightarrow> ('a \<Rightarrow> ('w, 'b) act) \<Rightarrow> ('w, 'b) act" where
  "bind_act m f s = (case m s of (Inl e, s') \<Rightarrow> (Inl e, s') | (Inr a, s') \<Rightarrow> f a s')"

definition call :: "event \<Rightarrow> ('w \<Rightarrow> (exc + 'a) \<times> 'w) \<Rightarrow> ('w, 'a) act" where
  "call ev f s = (case s of (w, tr) \<Rightarrow> (case f w of (r, w') \<Rightarrow> (r, w', tr @ [ev])))"

definition print_out :: "printed \<Rightarrow> ('w, unit) act" where
  "print_out out s = (case s of (w, tr) \<Rightarrow> (Inr (), w, tr @ [Print out]))"

text \<open>\<open>xs[0]\<close>.\<close>

definition first_item :: "'a list \<Rightarrow> ('w, 'a) act" where
  "first_item xs = (case xs of [] \<Rightarrow> raise IndexError | x # _ \<Rightarrow> ret x)"

text \<open>\<open>d.get(key, default)\<close>: a value that is no dictionary has no \<open>get\<close>.\<close>

definition py_get :: "jv \<Rightarrow> string \<Rightarrow> jv \<Rightarrow> exc + jv" where
  "py_get d key dflt =
     (case d of
        JDict kvs \<Rightarrow> Inr (case map_of kvs key of Some v \<Rightarrow> v | None \<Rightarrow> dflt)
      | _ \<Rightarrow> Inl AttributeError)"

subsection \<open>encode_image\<close>

text \<open>\<open>open(None, "rb")\<close> raises TypeError before any file is touched.\<close>

definition encode_image :: "'w services \<Rightarrow> pystr option \<Rightarrow> ('w, string) act" where
  "encode_image sv image_path =
     (case image_path of
        None \<Rightarrow> raise TypeError
      | Some p \<Rightarrow> call (OpenFile p) (read_b64 sv p))"

subsection \<open>process_query\<close>

text \<open>The texts between the values of the two f-strings, as code points.\<close>

definition label_fps :: pystr where
  "label_fps = [0x89C6, 0x9891, 0x4FE1, 0x606F, 0xFF1A] @ ascii ''FPS=''"

definition label_duration :: pystr where
  "label_duration = ascii '', '' @ [0x65F6, 0x957F] @ ascii ''=''"

definition label_seconds :: pystr where
  "label_seconds = [0x79D2]"

definition label_frames :: pystr where
  "label_frames = [0x603B, 0x5E27, 0x6570] @ ascii ''=''"

definition label_resolution :: pystr where
  "label_resolution = ascii '','' @ [0x5206, 0x8FA8, 0x7387] @ ascii ''=''"

text \<open>The f-string of line 124.\<close>

definition video_info :: "(jv \<Rightarrow> pystr) \<Rightarrow> jv \<Rightarrow> exc + pystr" where
  "video_info str video_params =
     (case py_get video_params ''fps'' JNone of
        Inl e \<Rightarrow> Inl e
      | Inr fps \<Rightarrow>
     (case py_get video_params ''duration'' JNone of
        Inl e \<Rightarrow> Inl e
      | Inr duration \<Rightarrow>
     (case py_get video_params ''frame_count'' JNone of
        Inl e \<Rightarrow> Inl e
      | Inr frame_count \<Rightarrow>
          Inr (label_fps @ str fps @ label_duration @ str duration
               @ label_seconds @ ascii '', '' @ label_frames @ str frame_count))))"

text \<open>The f-string of line 147.\<close>

definition binary_info :: "(jv \<Rightarrow> pystr) \<Rightarrow> jv \<Rightarrow> exc + pystr" where
  "binary_info str binary_params =
     (case py_get binary_params ''fps'' JNone of
        Inl e \<Rightarrow> Inl e
      | Inr fps \<Rightarrow>
     (case py_get binary_params ''duration'' JNone of
        Inl e \<Rightarrow> Inl e
      | Inr duration \<Rightarrow>
     (case py_get binary_params ''frame_count'' JNone of
        Inl e \<Rightarrow> Inl e
      | Inr frame_count \<Rightarrow>
     (case py_get binary_params ''resolution'' JNone of
        Inl e \<Rightarrow> Inl e
      | Inr resolution \<Rightarrow>
          Inr (label_fps @ str fps @ label_duration @ str duration
               @ label_seconds @ ascii '','' @ label_frames @ str frame_count
               @ label_resolution @ str resolution)))))"

text \<open>The value of the key \<open>path\<close> in the arguments of a tool call.\<close>

definition path_value :: "pystr option \<Rightarrow> jv" where
  "path_value video_path = (case video_path of None \<Rightarrow> JNone | Some p \<Rightarrow> JStr (utf8 p))"

text \<open>\<open>json.loads(result.content[0].text) if result.content else {}\<close>.\<close>

definition result_params :: "'w services \<Rightarrow> string list \<Rightarrow> exc + jv" where
  "result_params sv result_content =
     (case result_content of [] \<Rightarrow> Inr (JDict []) | text # _ \<Rightarrow> json_loads sv text)"

definition video_turn :: "string \<Rightarrow> pystr \<Rightarrow> pystr \<Rightarrow> turn" where
  "video_turn base_video text_question info =
     UserTurn (Parts [VideoUrl (''data:video/mp4;base64,'' @ base_video),
                      TextPart (text_question @ [cp newline] @ info)])"

text \<open>Lines 115 to 136: the block of \<open>if tool_name == "inference_video"\<close>.\<close>

definition inference_block :: "'w services \<Rightarrow> pystr \<Rightarrow> turn list \<Rightarrow> ('w, turn list) act" where
  "inference_block sv query messages =
     (let text_question = extract_text_question query;
          video_path = extract_video_path query
      in bind_act (encode_image sv video_path) (\<lambda>base_video.
         bind_act (call (CallTool ''inference_video'' (JDict [(''path'', path_value video_path)]))
                     (call_tool sv ''inference_video'' (JDict [(''path'', path_value video_path)])))
           (\<lambda>video_result.
         bind_act (lift (result_params sv video_result)) (\<lambda>video_params.
         bind_act (lift (video_info (py_str sv) video_params)) (\<lambda>info.
         ret (messages @ [video_turn base_video text_question info]))))))"

text \<open>Lines 138 to 158: the block of \<open>if tool_name == "process_video_binarization"\<close>.\<close>

definition binarization_block ::
  "'w services \<Rightarrow> pystr \<Rightarrow> jv \<Rightarrow> turn list \<Rightarrow> ('w, turn list) act" where
  "binarization_block sv query tool_args messages =
     (let text_question = extract_text_question query;
          video_path = extract_video_path query
      in bind_act (lift (py_get tool_args ''threshold'' (JInt 127))) (\<lambda>threshold.
         bind_act (encode_image sv video_path) (\<lambda>base_video.
         bind_act (call (CallTool ''process_video_binarization''
                           (JDict [(''path'', path_value video_path), (''threshold'', threshold)]))
                     (call_tool sv ''process_video_binarization''
                           (JDict [(''path'', path_value video_path), (''threshold'', threshold)])))
           (\<lambda>binary_result.
         bind_act (lift (result_params sv binary_result)) (\<lambda>binary_params.
         bind_act (lift (binary_info (py_str sv) binary_params)) (\<lambda>info.
         ret (messages @ [video_turn base_video text_question info])))))))"

text \<open>
  Lines 160 to 175: the call with the model's own arguments, the two turns appended
  and the second gateway call.
\<close>

definition final_call ::
  "'w services \<Rightarrow> choice \<Rightarrow> tool_call \<Rightarrow> jv \<Rightarrow> turn list \<Rightarrow> ('w, string option) act" where
  "final_call sv first tool_call tool_args messages =
     (let tool_name = function_name tool_call in
      bind_act (call (CallTool tool_name tool_args) (call_tool sv tool_name tool_args)) (\<lambda>result.
      bind_act (print_out (CallingTool tool_name tool_args)) (\<lambda>_.
      bind_act (first_item result) (\<lambda>text.
      let messages = messages @ [AssistantTurn (message first), ToolTurn text (call_id tool_call)] in
      bind_act (call (Create \<lparr>req_messages = messages, req_tools = None\<rparr>)
                  (create sv \<lparr>req_messages = messages, req_tools = None\<rparr>)) (\<lambda>choices.
      bind_act (first_item choices) (\<lambda>final.
      ret (content (message final))))))))"

text \<open>
  Lines 110 to 175: what follows a first response whose finish reason is
  \<open>tool_calls\<close>. The two blocks are tested one after the other, and the call of line
  160 is made whatever the tool name is.
\<close>

definition tool_round ::
  "'w services \<Rightarrow> pystr \<Rightarrow> turn list \<Rightarrow> choice \<Rightarrow> ('w, string option) act" where
  "tool_round sv query messages first =
     bind_act (first_item (tool_calls (message first))) (\<lambda>tool_call.
     let tool_name = function_name tool_call in
     bind_act (lift (json_loads sv (function_arguments tool_call))) (\<lambda>tool_args.
     bind_act (if tool_name = ''inference_video''
               then inference_block sv query messages else ret messages) (\<lambda>messages.
     bind_act (if tool_name = ''process_video_binarization''
               then binarization_block sv query tool_args messages else ret messages) (\<lambda>messages.
     final_call sv first tool_call tool_args messages))))"

definition process_query :: "'w services \<Rightarrow> pystr \<Rightarrow> ('w, string option) act" where
  "process_query sv query =
     (let messages = [UserTurn (Text query)] in
      bind_act (call ListTools (list_tools sv)) (\<lambda>available_tools.
      bind_act (print_out (ToolDescription available_tools)) (\<lambda>_.
      bind_act (call (Create \<lparr>req_messages = messages, req_tools = Some available_tools\<rparr>)
                  (create sv \<lparr>req_messages = messages, req_tools = Some available_tools\<rparr>)) (\<lambda>choices.
      bind_act (first_item choices) (\<lambda>first.
      if finish_reason first = ''tool_calls''
      then tool_round sv query messages first
      else ret (content (message first)))))))"

subsection \<open>chat_loop\<close>

text \<open>
  One pass through the body of \<open>while True\<close>: the flag tells whether the loop was left
  by \<open>break\<close>. Any exception of the pass is caught and printed. \<open>query.lower()\<close> is
  \<open>quit\<close> exactly when the query is that word in some mix of ASCII upper and lower
  case: no other character has a lower-case form among these four letters.
\<close>

definition chat_iteration :: "'w services \<Rightarrow> 'w \<times> event list \<Rightarrow> bool \<times> 'w \<times> event list" where
  "chat_iteration sv s =
     (case bind_act (call Input (input_line sv)) (\<lambda>line.
             let query = strip line in
             if map ascii_lower query = ascii ''quit'' then ret True
             else bind_act (process_query sv query) (\<lambda>response.
                  bind_act (print_out (Answer response)) (\<lambda>_. ret False))) s of
        (Inr quit, s') \<Rightarrow> (quit, s')
      | (Inl e, s') \<Rightarrow> (case print_out (ErrorLine e) s' of (_, s'') \<Rightarrow> (False, s'')))"

text \<open>
  The loop may never end (an exhausted input raises EOFError at every pass), so it is
  run for a number of passes: the result tells whether it ended within them, and the
  state reached.
\<close>

fun chat_passes :: "'w services \<Rightarrow> nat \<Rightarrow> 'w \<times> event list \<Rightarrow> bool \<times> 'w \<times> event list" where
  "chat_passes sv 0 s = (False, s)"
| "chat_passes sv (Suc n) s =
     (case chat_iteration sv s of
        (True, s') \<Rightarrow> (True, s')
      | (False, s') \<Rightarrow> chat_passes sv n s')"

definition chat_loop :: "'w services \<Rightarrow> nat \<Rightarrow> 'w \<times> event list \<Rightarrow> bool \<times> 'w \<times> event list" where
  "chat_loop sv n s = (case print_out Banner s of (_, s') \<Rightarrow> chat_passes sv n s')"

subsection \<open>Reading the log\<close>

definition is_tool_call :: "event \<Rightarrow> bool" where
  "is_tool_call e = (case e of CallTool _ _ \<Rightarrow> True | _ \<Rightarrow> False)"

definition is_gateway_call :: "event \<Rightarrow> bool" where
  "is_gateway_call e = (case e of Create _ \<Rightarrow> True | _ \<Rightarrow> False)"

definition tool_calls_of :: "event list \<Rightarrow> event list" where
  "tool_calls_of tr = filter is_tool_call tr"

definition gateway_calls_of :: "event list \<Rightarrow> event list" where
  "gateway_calls_of tr = filter is_gateway_call tr"

definition video_tools :: "string list" where
  "video_tools = [''inference_video'', ''process_video_binarization'']"

section \<open>Auxiliary notions for the proofs\<close>

text \<open>
  \<open>run P s\<close> is the length of the longest prefix of \<open>s\<close> within the set \<open>P\<close>, the
  positions a star can reach. \<open>head_ok\<close> and \<open>valid_at\<close> say that a text starts with a
  drive letter, a colon and a separator, and that a dot and an extension stand after
  \<open>n\<close> characters of the body.
\<close>

definition run :: "(nat \<Rightarrow> bool) \<Rightarrow> pystr \<Rightarrow> nat" where
  "run P s = length (takeWhile P s)"

definition head_ok :: "(nat \<Rightarrow> bool) \<Rightarrow> pystr \<Rightarrow> bool" where
  "head_ok sep s =
     (case s of d # col # sp # s' \<Rightarrow> drive_char d \<and> col = cp CHR '':'' \<and> sep sp | _ \<Rightarrow> False)"

definition valid_at :: "(nat \<Rightarrow> bool) \<Rightarrow> pystr \<Rightarrow> nat \<Rightarrow> bool" where
  "valid_at body t n = (n + 4 \<le> length t \<and> n \<le> run body t \<and> dot_ext (take 4 (drop n t)))"

abbreviation strict_sep :: "nat \<Rightarrow> bool" where
  "strict_sep \<equiv> (\<lambda>c. c = cp bslash \<or> c = cp CHR ''/'')"

abbreviation strict_body :: "nat \<Rightarrow> bool" where
  "strict_body \<equiv> (\<lambda>c. c \<notin> set illegal_chars)"

abbreviation loose_sep :: "nat \<Rightarrow> bool" where
  "loose_sep \<equiv> (\<lambda>c. c = cp bslash)"

abbreviation loose_body :: "nat \<Rightarrow> bool" where
  "loose_body \<equiv> (\<lambda>c. c \<noteq> cp newline)"

text \<open>
  \<open>round_shape\<close> describes the log of a tool round that reached its gateway call: the
  first tool call of the response and its parsed arguments, and the Tool Host
  invocations before the gateway call.
\<close>

definition round_shape :: "'w services \<Rightarrow> pystr \<Rightarrow> choice \<Rightarrow> event list \<Rightarrow> bool" where
  "round_shape sv q first new =
     (\<exists>before req tc tcs args.
        tool_calls (message first) = tc # tcs
        \<and> json_loads sv (function_arguments tc) = Inr args
        \<and> new = before @ [Create req] \<and> gateway_calls_of before = []
        \<and> (if function_name tc = ''inference_video''
            then tool_calls_of before =
                   [CallTool ''inference_video''
                      (JDict [(''path'', path_value (extract_video_path q))]),
                    CallTool (function_name tc) args]
            else if function_name tc = ''process_video_binarization''
            then \<exists>t. py_get args ''threshold'' (JInt 127) = Inr t
                   \<and> tool_calls_of before =
                       [CallTool ''process_video_binarization''
                          (JDict [(''path'', path_value (extract_video_path q)),
                                  (''threshold'', t)]),
                        CallTool (function_name tc) args]
            else tool_calls_of before = [CallTool (function_name tc) args]))"

section \<open>Example inputs\<close>

definition example_lum :: "pixel \<Rightarrow> 8 word" where
  "example_lum p = (case p of (b, g, r) \<Rightarrow> g)"

definition example_capture :: capture where
  "example_capture =
     \<lparr>opened = True, prop_fps = 25, prop_frame_count = 2,
      prop_frame_width = 2, prop_frame_height = 1,
      frames = [[[(0, 0, 0), (255, 255, 255)]], [[(10, 200, 30), (40, 50, 60)]]]\<rparr>"

definition zero_fps_capture :: capture where
  "zero_fps_capture = example_capture\<lparr>prop_fps := 0\<rparr>"

definition closed_capture :: capture where
  "closed_capture =
     \<lparr>opened = False, prop_fps = 0, prop_frame_count = 0,
      prop_frame_width = 0, prop_frame_height = 0, frames = []\<rparr>"

subsection \<open>Example queries\<close>

definition example_path :: pystr where
  "example_path = ascii ''F:'' @ [cp bslash] @ ascii ''x.mp4''"

definition query_one_path :: pystr where
  "query_one_path = ascii ''Analyze '' @ example_path"

definition short_path :: pystr where
  "short_path = ascii ''C:'' @ [cp bslash] @ ascii ''a.mp4''"

definition query_trailing_ext :: pystr where
  "query_trailing_ext = short_path @ ascii '' and b.avi''"

definition query_loose_only :: pystr where
  "query_loose_only = ascii ''C:'' @ [cp bslash] @ ascii ''a<b.mp4''"

definition query_no_path :: pystr where
  "query_no_path = ascii ''describe my video''"

text \<open>A drive letter written with the Kelvin sign, U+212A.\<close>

definition kelvin_path :: pystr where
  "kelvin_path = [0x212A] @ ascii '':'' @ [cp bslash] @ ascii ''a.mp4''"

definition query_kelvin :: pystr where
  "query_kelvin = ascii ''see '' @ kelvin_path"

text \<open>The path that test_video.py reads, with its extension in upper case.\<close>

definition upper_ext_path :: pystr where
  "upper_ext_path =
     ascii ''F:'' @ [cp bslash] @ ascii ''mycodes-zy'' @ [cp bslash] @ ascii ''IMG_4062.MP4''"

definition query_upper_ext :: pystr where
  "query_upper_ext = ascii ''describe '' @ upper_ext_path"

subsection \<open>Example services\<close>

definition example_tools :: "tool list" where
  "example_tools =
     [\<lparr>tool_name = ''inference_video'', tool_description = ''video inference'',
       inputSchema = JDict []\<rparr>,
      \<lparr>tool_name = ''process_video_binarization'', tool_description = ''video binarization'',
       inputSchema = JDict []\<rparr>]"

definition example_call :: tool_call where
  "example_call =
     \<lparr>call_id = ''call_1'', function_name = ''inference_video'', function_arguments = ''{}''\<rparr>"

definition example_selection :: choice where
  "example_selection =
     \<lparr>finish_reason = ''tool_calls'',
      message = \<lparr>content = None, tool_calls = [example_call]\<rparr>\<rparr>"

definition example_answer :: choice where
  "example_answer =
     \<lparr>finish_reason = ''stop'', message = \<lparr>content = Some ''A clip.'', tool_calls = []\<rparr>\<rparr>"

text \<open>
  \<open>json.loads\<close> on the two texts that the example runs parse: \<open>{}\<close> is the empty
  dictionary, and \<open>{bad\<close> is no JSON text.
\<close>

definition example_json_loads :: "string \<Rightarrow> exc + jv" where
  "example_json_loads s = (if s = ''{}'' then Inr (JDict []) else Inl JSONDecodeError)"

text \<open>
  A gateway that selects \<open>inference_video\<close> with the arguments \<open>{}\<close> when it is given
  the tool manifest and answers otherwise, and a Tool Host whose reply is the text \<open>{}\<close>.
\<close>

definition example_services :: "unit services" where
  "example_services =
     \<lparr>list_tools = (\<lambda>w. (Inr example_tools, w)),
      create = (\<lambda>req w. (Inr [case req_tools req of Some _ \<Rightarrow> example_selection
                                                     | None \<Rightarrow> example_answer], w)),
      call_tool = (\<lambda>name args w. (Inr [''{}''], w)),
      read_b64 = (\<lambda>p w. (Inr ''AAAA'', w)),
      input_line = (\<lambda>w. (Inl EOFError, w)),
      json_loads = example_json_loads,
      py_str = (\<lambda>v. ascii ''None'')\<rparr>"

text \<open>
  A terminal that gives two questions and then ends, the first between an ideographic
  space and a space, and a gateway whose tool call carries the malformed arguments
  \<open>{bad\<close>. The state of the world is the number of lines read.
\<close>

definition malformed_call :: tool_call where
  "malformed_call =
     \<lparr>call_id = ''call_1'', function_name = ''inference_video'', function_arguments = ''{bad''\<rparr>"

definition malformed_selection :: choice where
  "malformed_selection =
     \<lparr>finish_reason = ''tool_calls'',
      message = \<lparr>content = None, tool_calls = [malformed_call]\<rparr>\<rparr>"

definition scripted_services :: "nat services" where
  "scripted_services =
     \<lparr>list_tools = (\<lambda>w. (Inr example_tools, w)),
      create = (\<lambda>req w. (Inr [malformed_selection], w)),
      call_tool = (\<lambda>name args w. (Inr [''{}''], w)),
      read_b64 = (\<lambda>p w. (Inr ''AAAA'', w)),
      input_line = (\<lambda>w. (if w = 0 then Inr (0x3000 # ascii ''first question '') else
                           if w = 1 then Inr (ascii ''second question'') else Inl EOFError,
                           Suc w)),
      json_loads = example_json_loads,
      py_str = (\<lambda>v. ascii ''None'')\<rparr>"

definition first_pass_log :: "event list" where
  "first_pass_log =
     [Input, ListTools, Print (ToolDescription example_tools),
      Create \<lparr>req_messages = [UserTurn (Text (ascii ''first question''))],
              req_tools = Some example_tools\<rparr>,
      Print (ErrorLine JSONDecodeError)]"

section \<open>Properties of the Tool Host\<close>

lemma binarization_loop_closed:
  "binarization_loop lum t fs (st, n) =
     (st\<lparr>white_pixel_counts := white_pixel_counts st @
            map (\<lambda>f. count_eq 255 (threshold_binary t (cvtColor_gray lum f))) fs,
         black_pixel_counts := black_pixel_counts st @
            map (\<lambda>f. count_eq 0 (threshold_binary t (cvtColor_gray lum f))) fs,
         frame_brightness := frame_brightness st @
            map (\<lambda>f. mean_rat (map unat (concat (cvtColor_gray lum f)))) fs\<rparr>,
      n + length fs)"
  by (induction fs arbitrary: st n) (simp_all add: Let_def)

lemma count_white_black:
  "count_eq 255 (threshold_binary t g) + count_eq 0 (threshold_binary t g)
     = int (length (concat g))"
proof -
  let ?xs = "concat (threshold_binary t g)"
  have mem: "\<And>p. p \<in> set ?xs \<Longrightarrow> p = 0 \<or> p = 255"
    by (auto simp: threshold_binary_def)
  have "filter (\<lambda>p. p = 0) ?xs = filter (\<lambda>p. \<not> p = 255) ?xs"
    by (rule filter_cong) (use mem in auto)
  then have "length (filter (\<lambda>p. p = 255) ?xs) + length (filter (\<lambda>p. p = 0) ?xs) = length ?xs"
    by (simp add: sum_length_filter_compl)
  moreover have "length ?xs = length (concat g)"
    by (simp add: threshold_binary_def length_concat comp_def)
  ultimately show ?thesis
    by (simp add: count_eq_def)
qed

lemma rectangular_size:
  assumes "rectangular f"
  shows "length (concat f) = frame_width f * frame_height f"
proof -
  have "\<And>w. list_all (\<lambda>r. length r = w) f \<Longrightarrow> length (concat f) = w * length f"
    by (induction f) simp_all
  from this[OF assms[unfolded rectangular_def]] show ?thesis
    by (simp add: frame_height_def)
qed

lemma gray_size: "length (concat (cvtColor_gray lum f)) = length (concat f)"
  by (simp add: cvtColor_gray_def length_concat comp_def)

lemma video_binarization_stats:
  "video_binarization lum vc p t = (Inr d, rel) \<Longrightarrow> map_of d ''error'' = None \<Longrightarrow>
   map_of d ''binary_statistics'' =
     Some (stats_dict (fst (binarization_loop lum t (frames (vc p))
        (\<lparr>white_pixel_counts = [], black_pixel_counts = [], frame_brightness = []\<rparr>, 0))))"
  by (auto simp: video_binarization_def Let_def split: if_splits sum.splits prod.splits)

lemma example_binarization_succeeds:
  obtains d rel where
    "process_video_binarization example_lum (\<lambda>_. example_capture) ''clip.mp4'' 127 = (Inr d, rel)"
    and "map_of d ''error'' = None"
  by (simp add: process_video_binarization_def video_binarization_def example_capture_def
      py_truediv_def Let_def split: prod.splits)

lemma success_no_error_key:
  "opened (vc p) \<Longrightarrow> fst (inference_video vc p) = Inr d \<Longrightarrow> map_of d ''error'' = None"
  "opened (vc p) \<Longrightarrow> fst (process_video_binarization lum vc p t) = Inr d \<Longrightarrow>
     map_of d ''error'' = None"
  by (auto simp: inference_video_def video_inference_model_def
      process_video_binarization_def video_binarization_def Let_def
      split: sum.splits prod.splits)

lemma released_after_loop:
  "opened (vc p) \<Longrightarrow> prop_fps (vc p) \<noteq> 0 \<Longrightarrow>
   snd (inference_video vc p) \<and> snd (process_video_binarization lum vc p t)"
  by (simp add: inference_video_def video_inference_model_def process_video_binarization_def
      video_binarization_def py_truediv_def Let_def split: prod.splits)

text \<open>
  C2. Both operations are claimed to release the capture handle on every exit path. On
  an opened capture whose reported fps is 0 the division of line 48 (line 85 for the
  binarization) raises before the \<open>try\<close> is entered, and \<open>cap.release()\<close> is never
  called: both operations end with the exception and the handle still held.
\<close>

theorem release_skipped_on_zero_fps:
  "opened zero_fps_capture
   \<and> inference_video (\<lambda>_. zero_fps_capture) ''clip.mp4'' = (Inl ZeroDivisionError, False)
   \<and> process_video_binarization example_lum (\<lambda>_. zero_fps_capture) ''clip.mp4'' 127
       = (Inl ZeroDivisionError, False)"
  by (simp add: inference_video_def video_inference_model_def process_video_binarization_def
      video_binarization_def zero_fps_capture_def example_capture_def py_truediv_def)

text \<open>
  C3. The inference operation is claimed not to raise on an openable video whose fps is
  0. On such a capture \<open>frame_count / fps\<close> raises ZeroDivisionError and the operation
  returns no payload at all.
\<close>

theorem inference_zero_fps_raises:
  "opened zero_fps_capture \<and> prop_fps zero_fps_capture = 0
   \<and> fst (inference_video (\<lambda>_. zero_fps_capture) ''clip.mp4'') = Inl ZeroDivisionError"
  by (simp add: inference_video_def video_inference_model_def
      zero_fps_capture_def example_capture_def py_truediv_def)

text \<open>
  C6. For every frame read by a successful binarization with a threshold in [0,255], the
  white-pixel count and the black-pixel count recorded for the frame add up to the
  frame's width times its height.
\<close>

theorem binarize_white_plus_black:
  assumes "process_video_binarization lum vc p t = (Inr d, rel)"
    and "map_of d ''error'' = None"
    and "0 \<le> t" and "t \<le> 255"
    and "i < length (frames (vc p))"
    and "rectangular (frames (vc p) ! i)"
  shows "\<exists>ws bs fb. map_of d ''binary_statistics'' =
            Some (JDict [(''white_pixel_counts'', JList (map JInt ws)),
                         (''black_pixel_counts'', JList (map JInt bs)),
                         (''frame_brightness'', JList fb)])
          \<and> ws ! i + bs ! i =
              int (frame_width (frames (vc p) ! i) * frame_height (frames (vc p) ! i))"
proof -
  let ?fs = "frames (vc p)"
  let ?f = "?fs ! i"
  let ?ws = "map (\<lambda>f. count_eq 255 (threshold_binary t (cvtColor_gray lum f))) ?fs"
  let ?bs = "map (\<lambda>f. count_eq 0 (threshold_binary t (cvtColor_gray lum f))) ?fs"
  let ?fb = "map (\<lambda>f. JFloat (mean_rat (map unat (concat (cvtColor_gray lum f))))) ?fs"
  have m: "map_of d ''binary_statistics'' =
            Some (JDict [(''white_pixel_counts'', JList (map JInt ?ws)),
                         (''black_pixel_counts'', JList (map JInt ?bs)),
                         (''frame_brightness'', JList ?fb)])"
    using video_binarization_stats[OF assms(1)[unfolded process_video_binarization_def] assms(2)]
    by (simp add: binarization_loop_closed stats_dict_def)
  have "count_eq 255 (threshold_binary t (cvtColor_gray lum ?f)) +
        count_eq 0 (threshold_binary t (cvtColor_gray lum ?f))
          = int (frame_width ?f * frame_height ?f)"
    using assms(6) by (simp add: count_white_black gray_size rectangular_size)
  then have "?ws ! i + ?bs ! i = int (frame_width ?f * frame_height ?f)"
    using assms(5) by simp
  with m show ?thesis
    by blast
qed

theorem binarize_white_plus_black_witness:
  "\<exists>d rel ws bs fb.
     process_video_binarization example_lum (\<lambda>_. example_capture) ''clip.mp4'' 127 = (Inr d, rel)
     \<and> map_of d ''error'' = None
     \<and> map_of d ''binary_statistics'' =
            Some (JDict [(''white_pixel_counts'', JList (map JInt ws)),
                         (''black_pixel_counts'', JList (map JInt bs)),
                         (''frame_brightness'', JList fb)])
     \<and> ws ! 1 + bs ! 1 = 2"
proof -
  obtain d rel where e:
    "process_video_binarization example_lum (\<lambda>_. example_capture) ''clip.mp4'' 127 = (Inr d, rel)"
    and k: "map_of d ''error'' = None"
    by (rule example_binarization_succeeds)
  have r: "rectangular (frames example_capture ! 1)"
    by (simp add: example_capture_def rectangular_def frame_width_def)
  have w: "int (frame_width (frames example_capture ! 1)
                * frame_height (frames example_capture ! 1)) = 2"
    by (simp add: example_capture_def frame_width_def frame_height_def)
  have i: "1 < length (frames example_capture)"
    by (simp add: example_capture_def)
  have "\<exists>ws bs fb. map_of d ''binary_statistics'' =
            Some (JDict [(''white_pixel_counts'', JList (map JInt ws)),
                         (''black_pixel_counts'', JList (map JInt bs)),
                         (''frame_brightness'', JList fb)])
          \<and> ws ! 1 + bs ! 1 = 2"
    using binarize_white_plus_black[OF e k _ _ i r, unfolded w] by simp
  with e k show ?thesis
    by auto
qed

text \<open>
  C7. For every path that cannot be opened, both operations return a dictionary that
  holds the key \<open>error\<close>; neither raises.
\<close>

theorem open_error_is_payload:
  assumes "\<not> opened (vc p)"
  shows "(\<exists>d. fst (inference_video vc p) = Inr d \<and> map_of d ''error'' \<noteq> None)
       \<and> (\<exists>d. fst (process_video_binarization lum vc p t) = Inr d
              \<and> map_of d ''error'' \<noteq> None)"
  using assms
  by (simp add: inference_video_def video_inference_model_def
      process_video_binarization_def video_binarization_def)

theorem open_error_is_payload_witness:
  "\<not> opened closed_capture
   \<and> (\<exists>d. fst (inference_video (\<lambda>_. closed_capture) ''nothing.mp4'') = Inr d
          \<and> map_of d ''error'' \<noteq> None)
   \<and> (\<exists>d. fst (process_video_binarization example_lum (\<lambda>_. closed_capture)
                  ''nothing.mp4'' 127) = Inr d
          \<and> map_of d ''error'' \<noteq> None)"
proof -
  have h: "\<not> opened ((\<lambda>_. closed_capture) ''nothing.mp4'')"
    by (simp add: closed_capture_def)
  from open_error_is_payload[of "\<lambda>_. closed_capture" "''nothing.mp4''" example_lum 127, OF h] h
  show ?thesis
    by simp
qed

text \<open>
  C10. In every successful result of the binarization the three lists of per-frame
  statistics have the same length, the number of frames read from the video.
\<close>

theorem binarize_stats_same_length:
  assumes "process_video_binarization lum vc p t = (Inr d, rel)"
    and "map_of d ''error'' = None"
  shows "\<exists>ws bs fb. map_of d ''binary_statistics'' =
            Some (JDict [(''white_pixel_counts'', JList ws),
                         (''black_pixel_counts'', JList bs),
                         (''frame_brightness'', JList fb)])
          \<and> length ws = length (frames (vc p))
          \<and> length bs = length (frames (vc p))
          \<and> length fb = length (frames (vc p))"
  using video_binarization_stats[OF assms[unfolded process_video_binarization_def]]
  by (simp add: binarization_loop_closed stats_dict_def)

theorem binarize_stats_same_length_witness:
  "\<exists>d rel ws bs fb.
     process_video_binarization example_lum (\<lambda>_. example_capture) ''clip.mp4'' 127 = (Inr d, rel)
     \<and> map_of d ''error'' = None
     \<and> map_of d ''binary_statistics'' =
            Some (JDict [(''white_pixel_counts'', JList ws),
                         (''black_pixel_counts'', JList bs),
                         (''frame_brightness'', JList fb)])
     \<and> length ws = 2 \<and> length bs = 2 \<and> length fb = 2"
proof -
  obtain d rel where e:
    "process_video_binarization example_lum (\<lambda>_. example_capture) ''clip.mp4'' 127 = (Inr d, rel)"
    and k: "map_of d ''error'' = None"
    by (rule example_binarization_succeeds)
  have n: "length (frames ((\<lambda>_. example_capture) ''clip.mp4'')) = 2"
    by (simp add: example_capture_def)
  from binarize_stats_same_length[OF e k] e k n show ?thesis
    by auto
qed

section \<open>Properties of the path extraction\<close>

lemma cp_inj: "(cp a = cp b) = (a = b)"
  by (simp add: cp_def)

lemma in_ranges_single: "in_ranges [(l, l)] c = (c = l)"
  by (auto simp: in_ranges_def)

lemma in_ranges_singles: "in_ranges (map (\<lambda>c. (c, c)) xs) x = (x \<in> set xs)"
  by (induction xs) (auto simp: in_ranges_def)

lemma variants_letters: "v \<in> set (case_variants c) \<Longrightarrow> is_letter v"
  by (auto simp: case_variants_def is_letter_def cp_def split: if_splits)

lemma in_set_nonletters:
  assumes "list_all (\<lambda>x. \<not> is_letter x) xs"
  shows "in_set True (map (\<lambda>c. (c, c)) xs) c = (c \<in> set xs)"
proof -
  have "\<not> list_ex (in_ranges (map (\<lambda>c. (c, c)) xs)) (case_variants c)"
    using assms variants_letters[of _ c]
    by (auto simp: list_ex_iff list_all_iff in_ranges_singles)
  then show ?thesis
    by (simp add: in_set_def in_ranges_singles)
qed

lemma cmatch_plain: "\<not> is_letter l \<Longrightarrow> cmatch True (lit l) c = (c = l)"
  using in_set_nonletters[of "[l]" c] by (simp add: lit_def)

lemma cmatch_drive_letter: "cmatch True drive_letter c = drive_char c"
  by (auto simp: drive_letter_def drive_char_def is_letter_def in_set_def in_ranges_def
      case_variants_def cp_def)

lemma lit_match_suffix: "lit_match ic w s = Some r \<Longrightarrow> \<exists>m. s = m @ r \<and> length m = length w"
proof (induction ic w s rule: lit_match.induct)
  case (3 ic l ls c cs)
  then obtain m where "cs = m @ r" "length m = length ls"
    by (auto split: if_splits)
  then have "c # cs = (c # m) @ r \<and> length (c # m) = length (l # ls)" by simp
  then show ?case by blast
qed auto

lemma rmatch_suffix: "rmatch ic p s = Some r \<Longrightarrow> \<exists>m. s = m @ r"
proof (induction ic p s arbitrary: r rule: rmatch.induct)
  case (3 ic k as c cs)
  then obtain m where "cs = m @ r" by (auto split: if_splits)
  then have "c # cs = (c # m) @ r" by simp
  then show ?case by blast
next
  case (5 ic k as c cs)
  show ?case
  proof (cases "cmatch ic k c")
    case True
    show ?thesis
    proof (cases "rmatch ic (Star k # as) cs")
      case None
      with 5 True show ?thesis by auto
    next
      case (Some r')
      with 5 True have "r' = r" by simp
      with 5(1)[OF True] Some obtain m where "cs = m @ r" by blast
      then have "c # cs = (c # m) @ r" by simp
      then show ?thesis by blast
    qed
  next
    case False
    with 5 show ?thesis by auto
  qed
next
  case (7 ic k as c cs)
  show ?case
  proof (cases "rmatch ic as (c # cs)")
    case (Some r')
    with 7 show ?thesis by auto
  next
    case None
    with 7 have t: "cmatch ic k c" and e: "rmatch ic (LazyStar k # as) cs = Some r"
      by (auto split: if_splits)
    from 7(2)[OF None t e] obtain m where "cs = m @ r" by blast
    then have "c # cs = (c # m) @ r" by simp
    then show ?thesis by blast
  qed
next
  case (9 ic w ws as s)
  show ?case
  proof (cases "lit_match ic w s")
    case None
    with 9 show ?thesis by auto
  next
    case (Some s')
    show ?thesis
    proof (cases "rmatch ic as s'")
      case None
      with 9 Some show ?thesis by auto
    next
      case (Some r')
      with 9 \<open>lit_match ic w s = Some s'\<close> have "r' = r" by simp
      with 9(1)[OF \<open>lit_match ic w s = Some s'\<close>] Some obtain m where "s' = m @ r" by blast
      moreover from lit_match_suffix[OF \<open>lit_match ic w s = Some s'\<close>] obtain m' where "s = m' @ s'" by blast
      ultimately have "s = (m' @ m) @ r" by simp
      then show ?thesis by blast
    qed
  qed
qed auto

lemma run_Nil [simp]: "run P [] = 0" by (simp add: run_def)
lemma run_Cons [simp]: "run P (c # cs) = (if P c then Suc (run P cs) else 0)" by (simp add: run_def)

lemma Star_None:
  "rmatch ic (Star k # as) s = None \<Longrightarrow> n \<le> run (cmatch ic k) s \<Longrightarrow>
   rmatch ic as (drop n s) = None"
proof (induction s arbitrary: n)
  case Nil
  then show ?case by simp
next
  case (Cons c cs)
  show ?case
  proof (cases "cmatch ic k c")
    case False
    with Cons.prems show ?thesis by simp
  next
    case True
    with Cons.prems have a: "rmatch ic (Star k # as) cs = None" and b: "rmatch ic as (c # cs) = None"
      by (auto split: option.splits)
    show ?thesis
    proof (cases n)
      case 0
      with b show ?thesis by simp
    next
      case (Suc n')
      with Cons.prems(2) True have "n' \<le> run (cmatch ic k) cs" by simp
      from Cons.IH[OF a this] Suc show ?thesis by simp
    qed
  qed
qed

lemma Star_Some:
  "rmatch ic (Star k # as) s = Some r \<Longrightarrow>
   \<exists>n \<le> run (cmatch ic k) s. rmatch ic as (drop n s) = Some r \<and>
      (\<forall>m. n < m \<and> m \<le> run (cmatch ic k) s \<longrightarrow> rmatch ic as (drop m s) = None)"
proof (induction s)
  case Nil
  then show ?case by simp
next
  case (Cons c cs)
  show ?case
  proof (cases "cmatch ic k c")
    case False
    with Cons.prems show ?thesis by simp
  next
    case True
    show ?thesis
    proof (cases "rmatch ic (Star k # as) cs")
      case (Some r')
      with Cons.prems True have "r' = r" by simp
      with Cons.IH Some obtain n where n: "n \<le> run (cmatch ic k) cs" "rmatch ic as (drop n cs) = Some r"
        "\<forall>m. n < m \<and> m \<le> run (cmatch ic k) cs \<longrightarrow> rmatch ic as (drop m cs) = None"
        by blast
      have "\<forall>m. Suc n < m \<and> m \<le> run (cmatch ic k) (c # cs) \<longrightarrow> rmatch ic as (drop m (c # cs)) = None"
      proof (intro allI impI)
        fix m assume m: "Suc n < m \<and> m \<le> run (cmatch ic k) (c # cs)"
        then obtain m' where "m = Suc m'" by (cases m) auto
        with m n(3) True show "rmatch ic as (drop m (c # cs)) = None" by simp
      qed
      with n True show ?thesis
        by (intro exI[of _ "Suc n"]) simp
    next
      case None
      with Cons.prems True have 0: "rmatch ic as (c # cs) = Some r" by simp
      have "\<forall>m. 0 < m \<and> m \<le> run (cmatch ic k) (c # cs) \<longrightarrow> rmatch ic as (drop m (c # cs)) = None"
      proof (intro allI impI)
        fix m assume m: "0 < m \<and> m \<le> run (cmatch ic k) (c # cs)"
        then obtain m' where m': "m = Suc m'" by (cases m) auto
        with m True have "m' \<le> run (cmatch ic k) cs" by simp
        from Star_None[OF None this] m' show "rmatch ic as (drop m (c # cs)) = None" by simp
      qed
      with 0 show ?thesis
        by (intro exI[of _ 0]) simp
    qed
  qed
qed

lemma Lazy_None:
  "rmatch ic (LazyStar k # as) s = None \<Longrightarrow> n \<le> run (cmatch ic k) s \<Longrightarrow>
   rmatch ic as (drop n s) = None"
proof (induction s arbitrary: n)
  case Nil
  then show ?case by simp
next
  case (Cons c cs)
  from Cons.prems(1) have b: "rmatch ic as (c # cs) = None"
    by (auto split: option.splits)
  show ?case
  proof (cases n)
    case 0
    with b show ?thesis by simp
  next
    case (Suc n')
    with Cons.prems(2) have t: "cmatch ic k c" and le: "n' \<le> run (cmatch ic k) cs"
      by (auto split: if_splits)
    with Cons.prems(1) b have "rmatch ic (LazyStar k # as) cs = None" by simp
    from Cons.IH[OF this le] Suc show ?thesis by simp
  qed
qed

lemma Lazy_Some:
  "rmatch ic (LazyStar k # as) s = Some r \<Longrightarrow>
   \<exists>n \<le> run (cmatch ic k) s. rmatch ic as (drop n s) = Some r \<and>
      (\<forall>m < n. rmatch ic as (drop m s) = None)"
proof (induction s)
  case Nil
  then show ?case by simp
next
  case (Cons c cs)
  show ?case
  proof (cases "rmatch ic as (c # cs)")
    case (Some r')
    with Cons.prems have "rmatch ic as (drop 0 (c # cs)) = Some r" by simp
    then show ?thesis by (intro exI[of _ 0]) simp
  next
    case None
    with Cons.prems have t: "cmatch ic k c" and e: "rmatch ic (LazyStar k # as) cs = Some r"
      by (auto split: if_splits)
    from Cons.IH[OF e] obtain n where n: "n \<le> run (cmatch ic k) cs" "rmatch ic as (drop n cs) = Some r"
      "\<forall>m < n. rmatch ic as (drop m cs) = None"
      by blast
    have "\<forall>m < Suc n. rmatch ic as (drop m (c # cs)) = None"
    proof (intro allI impI)
      fix m assume "m < Suc n"
      with n(3) None show "rmatch ic as (drop m (c # cs)) = None"
        by (cases m) auto
    qed
    with n t show ?thesis
      by (intro exI[of _ "Suc n"]) simp
  qed
qed

lemma list4_cases:
  obtains "t = []" | a where "t = [a]" | a b where "t = [a, b]" | a b c where "t = [a, b, c]"
  | a b c d r where "t = a # b # c # d # r"
  by (metis list.exhaust)

lemma ext_letters:
  "cmatch True (lit (cp CHR ''m'')) c = (fold_ext c = cp CHR ''m'')"
  "cmatch True (lit (cp CHR ''p'')) c = (fold_ext c = cp CHR ''p'')"
  "cmatch True (lit (cp CHR ''4'')) c = (fold_ext c = cp CHR ''4'')"
  "cmatch True (lit (cp CHR ''a'')) c = (fold_ext c = cp CHR ''a'')"
  "cmatch True (lit (cp CHR ''v'')) c = (fold_ext c = cp CHR ''v'')"
  "cmatch True (lit (cp CHR ''i'')) c = (fold_ext c = cp CHR ''i'')"
  "cmatch True (lit (cp CHR ''o'')) c = (fold_ext c = cp CHR ''o'')"
  "cmatch True (lit (cp CHR ''k'')) c = (fold_ext c = cp CHR ''k'')"
  "cmatch True (lit (cp CHR ''f'')) c = (fold_ext c = cp CHR ''f'')"
  "cmatch True (lit (cp CHR ''l'')) c = (fold_ext c = cp CHR ''l'')"
  by (auto simp: lit_def in_set_def in_ranges_def case_variants_def fold_ext_def
      ascii_lower_def cp_def)

lemma cmatch_dot: "cmatch True (lit (cp CHR ''.'')) c = (c = cp CHR ''.'')"
  by (rule cmatch_plain) (simp add: is_letter_def cp_def)

lemma tail_match:
  "rmatch True [One (lit (cp CHR ''.'')), Alt video_exts] t =
     (if 4 \<le> length t \<and> dot_ext (take 4 t) then Some (drop 4 t) else None)"
  by (cases t rule: list4_cases)
     (auto simp: video_exts_def ascii_def dot_ext_def cmatch_dot ext_letters cp_inj)

lemma illegal_nonletters: "list_all (\<lambda>x. \<not> is_letter x) illegal_chars"
  by (simp add: illegal_chars_def is_letter_def cp_def)

lemma cmatch_body:
  "cmatch True (NotChars (map (\<lambda>c. (c, c)) illegal_chars)) c = (c \<notin> set illegal_chars)"
  by (simp add: in_set_nonletters[OF illegal_nonletters])

lemma cmatch_sep:
  "cmatch True (Chars [(cp bslash, cp bslash), (cp CHR ''/'', cp CHR ''/'')]) c
     = (c = cp bslash \<or> c = cp CHR ''/'')"
  using in_set_nonletters[of "[cp bslash, cp CHR ''/'']" c]
  by (simp add: is_letter_def cp_def)

lemma cmatch_colon: "cmatch True (lit (cp CHR '':'')) c = (c = cp CHR '':'')"
  by (rule cmatch_plain) (simp add: is_letter_def cp_def)

lemma cmatch_bslash: "cmatch True (lit (cp bslash)) c = (c = cp bslash)"
  by (rule cmatch_plain) (simp add: is_letter_def cp_def)

lemma list3_cases:
  obtains "length s < 3" | d col sp s' where "s = d # col # sp # s'"
  by (cases s rule: list4_cases) auto

lemma head_match:
  "rmatch True (One drive_letter # One (lit (cp CHR '':'')) # One k # rest) s =
     (if head_ok (cmatch True k) s then rmatch True rest (drop 3 s) else None)"
  by (cases s rule: list4_cases)
     (auto simp: head_ok_def cmatch_drive_letter cmatch_colon)

lemma tail_valid:
  "(rmatch True [One (lit (cp CHR ''.'')), Alt video_exts] (drop n t) \<noteq> None
      \<and> n \<le> run body t)
     = valid_at body t n"
  by (auto simp: tail_match valid_at_def)

lemma strict_Some:
  assumes "rmatch True strict_pattern s = Some r"
  shows "\<exists>n. head_ok strict_sep s \<and> valid_at strict_body (drop 3 s) n \<and> r = drop (n + 7) s
            \<and> (\<forall>m. valid_at strict_body (drop 3 s) m \<longrightarrow> m \<le> n)"
proof -
  let ?k = "NotChars (map (\<lambda>c. (c, c)) illegal_chars)"
  let ?tail = "[One (lit (cp CHR ''.'')), Alt video_exts]"
  let ?t = "drop 3 s"
  have b: "cmatch True ?k = strict_body" by (rule ext) (simp only: cmatch_body)
  from assms have h: "head_ok strict_sep s" and st: "rmatch True (Star ?k # ?tail) ?t = Some r"
    by (auto simp: strict_pattern_def head_match cmatch_sep[abs_def] split: if_splits)
  from Star_Some[OF st] obtain n where n: "n \<le> run strict_body ?t"
    "rmatch True ?tail (drop n ?t) = Some r"
    "\<forall>m. n < m \<and> m \<le> run strict_body ?t \<longrightarrow> rmatch True ?tail (drop m ?t) = None"
    unfolding b by blast
  from n(1,2) have v: "valid_at strict_body ?t n"
    using tail_valid[of n ?t strict_body] by simp
  from n(2) have r: "r = drop (n + 7) s"
    by (auto simp: tail_match add.commute split: if_splits)
  have "\<forall>m. valid_at strict_body ?t m \<longrightarrow> m \<le> n"
  proof (intro allI impI)
    fix m assume "valid_at strict_body ?t m"
    then have "rmatch True ?tail (drop m ?t) \<noteq> None" "m \<le> run strict_body ?t"
      using tail_valid[of m ?t strict_body] by simp_all
    with n(3) show "m \<le> n" by (meson not_le_imp_less)
  qed
  with h v r show ?thesis by blast
qed

lemma strict_None:
  assumes "rmatch True strict_pattern s = None"
  shows "\<not> (head_ok strict_sep s \<and> valid_at strict_body (drop 3 s) n)"
proof
  let ?k = "NotChars (map (\<lambda>c. (c, c)) illegal_chars)"
  let ?tail = "[One (lit (cp CHR ''.'')), Alt video_exts]"
  let ?t = "drop 3 s"
  assume a: "head_ok strict_sep s \<and> valid_at strict_body ?t n"
  have b: "cmatch True ?k = strict_body" by (rule ext) (simp only: cmatch_body)
  from assms a have st: "rmatch True (Star ?k # ?tail) ?t = None"
    by (auto simp: strict_pattern_def head_match cmatch_sep[abs_def] split: if_splits)
  from a have "n \<le> run (cmatch True ?k) ?t" unfolding b by (simp add: valid_at_def)
  from Star_None[OF st this] a show False
    using tail_valid[of n ?t strict_body] by simp
qed

lemma loose_Some:
  assumes "rmatch True simple_pattern s = Some r"
  shows "\<exists>n. head_ok loose_sep s \<and> valid_at loose_body (drop 3 s) n \<and> r = drop (n + 7) s
            \<and> (\<forall>m. valid_at loose_body (drop 3 s) m \<longrightarrow> n \<le> m)"
proof -
  let ?tail = "[One (lit (cp CHR ''.'')), Alt video_exts]"
  let ?t = "drop 3 s"
  have b: "cmatch True AnyChar = loose_body" by (rule ext) simp
  from assms have h: "head_ok loose_sep s" and st: "rmatch True (LazyStar AnyChar # ?tail) ?t = Some r"
    by (auto simp: simple_pattern_def head_match cmatch_bslash[abs_def] split: if_splits)
  from Lazy_Some[OF st] obtain n where n: "n \<le> run loose_body ?t"
    "rmatch True ?tail (drop n ?t) = Some r"
    "\<forall>m < n. rmatch True ?tail (drop m ?t) = None"
    unfolding b by blast
  from n(1,2) have v: "valid_at loose_body ?t n"
    using tail_valid[of n ?t loose_body] by simp
  from n(2) have r: "r = drop (n + 7) s"
    by (auto simp: tail_match add.commute split: if_splits)
  have "\<forall>m. valid_at loose_body ?t m \<longrightarrow> n \<le> m"
  proof (intro allI impI)
    fix m assume "valid_at loose_body ?t m"
    then have "rmatch True ?tail (drop m ?t) \<noteq> None"
      using tail_valid[of m ?t loose_body] by simp
    with n(3) show "n \<le> m" by (meson not_le_imp_less)
  qed
  with h v r show ?thesis by blast
qed

lemma loose_None:
  assumes "rmatch True simple_pattern s = None"
  shows "\<not> (head_ok loose_sep s \<and> valid_at loose_body (drop 3 s) n)"
proof
  let ?tail = "[One (lit (cp CHR ''.'')), Alt video_exts]"
  let ?t = "drop 3 s"
  assume a: "head_ok loose_sep s \<and> valid_at loose_body ?t n"
  have b: "cmatch True AnyChar = loose_body" by (rule ext) simp
  from assms a have st: "rmatch True (LazyStar AnyChar # ?tail) ?t = None"
    by (auto simp: simple_pattern_def head_match cmatch_bslash[abs_def] split: if_splits)
  from a have "n \<le> run (cmatch True AnyChar) ?t" unfolding b by (simp add: valid_at_def)
  from Lazy_None[OF st this] a show False
    using tail_valid[of n ?t loose_body] by simp
qed

lemma run_iff: "n \<le> length s \<Longrightarrow> (n \<le> run P s) = list_all P (take n s)"
proof (induction s arbitrary: n)
  case Nil
  then show ?case by simp
next
  case (Cons c cs)
  then show ?case by (cases n) auto
qed

lemma path_like_length: "path_like sep body p \<Longrightarrow> 7 \<le> length p"
  by (cases p rule: list4_cases) (auto simp: path_like_def)

lemma prefix_path:
  assumes "n + 7 \<le> length s"
  shows "path_like sep body (take (n + 7) s) = (head_ok sep s \<and> valid_at body (drop 3 s) n)"
proof -
  from assms obtain d col sp s' where s: "s = d # col # sp # s'"
    by (cases s rule: list3_cases) auto
  with assms have len: "n + 4 \<le> length s'" by simp
  have t: "take (n + 7) s = d # col # sp # take (n + 4) s'"
    by (simp add: s take_Cons' add.commute)
  have 1: "take n (take (n + 4) s') = take n s'" by simp
  have 2: "drop n (take (n + 4) s') = take 4 (drop n s')" by (simp add: drop_take)
  have 3: "length (take (n + 4) s') - 4 = n" using len by simp
  have 4: "list_all body (take n s') = (n \<le> run body s')"
    using run_iff[of n s' body] len by simp
  show ?thesis
    unfolding t path_like_def
    by (simp add: 1 2 3 4 s head_ok_def valid_at_def len del: take_Suc_Cons)
qed

lemma occurs_path:
  assumes "occurs (path_like sep body) q k p"
  shows "\<exists>n. length p = n + 7 \<and> head_ok sep (drop k q) \<and> valid_at body (drop 3 (drop k q)) n"
proof -
  from assms have le: "k + length p \<le> length q" and tk: "take (length p) (drop k q) = p"
    and pl: "path_like sep body p"
    by (simp_all add: occurs_def)
  from path_like_length[OF pl] obtain n where n: "length p = n + 7"
    by (metis add.commute le_Suc_ex)
  with le have "n + 7 \<le> length (drop k q)" by simp
  from prefix_path[OF this, of sep body] pl tk n show ?thesis by auto
qed

lemma path_occurs:
  assumes "head_ok sep (drop k q)" and "valid_at body (drop 3 (drop k q)) n"
  shows "occurs (path_like sep body) q k (take (n + 7) (drop k q))"
proof -
  from assms(2) have "n + 4 \<le> length (drop 3 (drop k q))" by (simp add: valid_at_def)
  then have le: "n + 7 \<le> length (drop k q)" by simp
  from prefix_path[OF this, of sep body] assms have "path_like sep body (take (n + 7) (drop k q))"
    by simp
  with le show ?thesis by (simp add: occurs_def)
qed

lemma search_Some:
  "re_search ic p q = Some (pre, m, post) \<Longrightarrow>
   q = pre @ m @ post \<and> rmatch ic p (m @ post) = Some post
   \<and> (\<forall>k < length pre. rmatch ic p (drop k q) = None)"
proof (induction q arbitrary: pre)
  case Nil
  then obtain r where r: "rmatch ic p [] = Some r" and e: "pre = []" "m = []" "post = []"
    by (auto split: option.splits)
  from rmatch_suffix[OF r] have "r = []" by simp
  with r e show ?case by simp
next
  case (Cons c cs)
  show ?case
  proof (cases "rmatch ic p (c # cs)")
    case (Some r)
    with Cons.prems have e: "pre = []" "m = take (length (c # cs) - length r) (c # cs)" "post = r"
      by auto
    from rmatch_suffix[OF Some] obtain m' where m': "c # cs = m' @ r" by blast
    then have "length (c # cs) - length r = length m'"
      by (metis add_diff_cancel_right' length_append)
    with e m' have "m = m'" by (metis append_eq_conv_conj)
    with e m' Some show ?thesis by simp
  next
    case None
    with Cons.prems obtain pre' where s: "re_search ic p cs = Some (pre', m, post)" and e: "pre = c # pre'"
      by (auto split: option.splits)
    note ih0 = Cons.IH[OF s]
    note ih = ih0[THEN conjunct1] ih0[THEN conjunct2, THEN conjunct1]
      ih0[THEN conjunct2, THEN conjunct2]
    have "\<forall>k < length pre. rmatch ic p (drop k (c # cs)) = None"
    proof (intro allI impI)
      fix k assume "k < length pre"
      with e ih(3) None show "rmatch ic p (drop k (c # cs)) = None"
        by (cases k) auto
    qed
    with ih(1,2) e show ?thesis by simp
  qed
qed

lemma search_None:
  "re_search ic p q = None \<Longrightarrow> k \<le> length q \<Longrightarrow> rmatch ic p (drop k q) = None"
proof (induction q arbitrary: k)
  case Nil
  then show ?case by (auto split: option.splits)
next
  case (Cons c cs)
  from Cons.prems(1) have a: "rmatch ic p (c # cs) = None" and b: "re_search ic p cs = None"
    by (auto split: option.splits)
  show ?case
  proof (cases k)
    case 0
    with a show ?thesis by simp
  next
    case (Suc k')
    with Cons.prems(2) Cons.IH[OF b, of k'] show ?thesis by simp
  qed
qed

lemma search_sound_gen:
  assumes S: "\<And>s r. rmatch True pat s = Some r \<Longrightarrow>
      \<exists>n. head_ok sep s \<and> valid_at body (drop 3 s) n \<and> r = drop (n + 7) s
          \<and> (\<forall>m. valid_at body (drop 3 s) m \<longrightarrow> ord m n)"
    and N: "\<And>s n. rmatch True pat s = None \<Longrightarrow>
      \<not> (head_ok sep s \<and> valid_at body (drop 3 s) n)"
    and F: "re_search True pat q = Some (pre, m, post)"
  shows "occurs (path_like sep body) q (length pre) m
       \<and> (\<forall>k' p'. occurs (path_like sep body) q k' p' \<longrightarrow>
             length pre \<le> k' \<and> (k' = length pre \<longrightarrow> ord (length p' - 7) (length m - 7)))"
proof -
  note f0 = search_Some[OF F]
  note q = f0[THEN conjunct1] and mt = f0[THEN conjunct2, THEN conjunct1]
    and early = f0[THEN conjunct2, THEN conjunct2]
  have d: "drop (length pre) q = m @ post" by (simp add: q)
  from S[OF mt] obtain n where n: "head_ok sep (m @ post)"
    "valid_at body (drop 3 (m @ post)) n" "post = drop (n + 7) (m @ post)"
    "\<forall>k. valid_at body (drop 3 (m @ post)) k \<longrightarrow> ord k n"
    by (elim exE conjE) (rule that)
  from n(2) have "n + 4 \<le> length (drop 3 (m @ post))" by (simp add: valid_at_def)
  then have le: "n + 7 \<le> length m + length post" by simp
  from n(3) have "length post = length (m @ post) - (n + 7)"
    by (metis length_drop)
  then have "length post = length m + length post - (n + 7)"
    by (simp only: length_append)
  with le have lm: "length m = n + 7" by linarith
  then have tm: "take (n + 7) (m @ post) = m" by simp
  from path_occurs[of sep "length pre" q body n] n(1,2) d tm
  have o: "occurs (path_like sep body) q (length pre) m" by simp
  have "\<forall>k' p'. occurs (path_like sep body) q k' p' \<longrightarrow>
          length pre \<le> k' \<and> (k' = length pre \<longrightarrow> ord (length p' - 7) (length m - 7))"
  proof (intro allI impI)
    fix k' p' assume oc: "occurs (path_like sep body) q k' p'"
    from occurs_path[OF oc] obtain n' where n': "length p' = n' + 7" "head_ok sep (drop k' q)"
      "valid_at body (drop 3 (drop k' q)) n'" by (elim exE conjE) (rule that)
    have a: "length pre \<le> k'"
    proof (rule ccontr)
      assume "\<not> length pre \<le> k'"
      then have "k' < length pre" by simp
      with early have "rmatch True pat (drop k' q) = None" by blast
      from N[OF this, of n'] n' show False by simp
    qed
    have "k' = length pre \<longrightarrow> ord (length p' - 7) (length m - 7)"
    proof
      assume "k' = length pre"
      with n'(3) d have "valid_at body (drop 3 (m @ post)) n'" by simp
      with n(4) have "ord n' n" by blast
      with n'(1) lm show "ord (length p' - 7) (length m - 7)" by simp
    qed
    with a show "length pre \<le> k' \<and> (k' = length pre \<longrightarrow> ord (length p' - 7) (length m - 7))"
      by blast
  qed
  with o show ?thesis by blast
qed

lemma search_None_gen:
  assumes N: "\<And>s n. rmatch True pat s = None \<Longrightarrow>
      \<not> (head_ok sep s \<and> valid_at body (drop 3 s) n)"
    and F: "re_search True pat q = None"
  shows "\<not> occurs (path_like sep body) q k p"
proof
  assume oc: "occurs (path_like sep body) q k p"
  then have "k \<le> length q" by (simp add: occurs_def)
  from search_None[OF F this] have "rmatch True pat (drop k q) = None" .
  from N[OF this] occurs_path[OF oc] show False by blast
qed

lemma strict_search_sound:
  assumes "re_search True strict_pattern q = Some (pre, m, post)"
  shows "occurs strict_path q (length pre) m
       \<and> (\<forall>k' p'. occurs strict_path q k' p' \<longrightarrow>
             length pre \<le> k' \<and> (k' = length pre \<longrightarrow> length p' \<le> length m))"
proof -
  have e: "strict_path = path_like strict_sep strict_body"
    by (rule ext) (simp add: strict_path_def)
  have g: "occurs strict_path q (length pre) m
       \<and> (\<forall>k' p'. occurs strict_path q k' p' \<longrightarrow>
             length pre \<le> k' \<and> (k' = length pre \<longrightarrow> length p' - 7 \<le> length m - 7))"
    unfolding e
    by (rule search_sound_gen[where ord = "(\<le>)", OF _ _ assms])
       (use strict_Some strict_None in blast)+
  have l: "\<And>k' p'. occurs strict_path q k' p' \<Longrightarrow> 7 \<le> length p'"
    unfolding e occurs_def by (blast dest: path_like_length)
  show ?thesis
  proof (intro conjI allI impI)
    show "occurs strict_path q (length pre) m" using g by blast
  next
    fix k' p' assume "occurs strict_path q k' p'"
    with g show "length pre \<le> k'" by blast
  next
    fix k' p' assume o: "occurs strict_path q k' p'" and k: "k' = length pre"
    with g have "length p' - 7 \<le> length m - 7" by blast
    moreover from g have "7 \<le> length m" using l by blast
    moreover from o have "7 \<le> length p'" by (rule l)
    ultimately show "length p' \<le> length m" by linarith
  qed
qed

lemma strict_search_None:
  assumes "re_search True strict_pattern q = None"
  shows "\<not> occurs strict_path q k p"
proof -
  have e: "strict_path = path_like strict_sep strict_body"
    by (rule ext) (simp add: strict_path_def)
  show ?thesis
    unfolding e
    by (rule search_None_gen[OF _ assms]) (use strict_None in blast)
qed

lemma loose_search_sound:
  assumes "re_search True simple_pattern q = Some (pre, m, post)"
  shows "occurs loose_path q (length pre) m
       \<and> (\<forall>k' p'. occurs loose_path q k' p' \<longrightarrow>
             length pre \<le> k' \<and> (k' = length pre \<longrightarrow> length m \<le> length p'))"
proof -
  have e: "loose_path = path_like loose_sep loose_body"
    by (rule ext) (simp add: loose_path_def)
  have g: "occurs loose_path q (length pre) m
       \<and> (\<forall>k' p'. occurs loose_path q k' p' \<longrightarrow>
             length pre \<le> k' \<and> (k' = length pre \<longrightarrow> length m - 7 \<le> length p' - 7))"
    unfolding e
    by (rule search_sound_gen[where ord = "(\<lambda>a b. b \<le> a)", OF _ _ assms])
       (use loose_Some loose_None in blast)+
  have l: "\<And>k' p'. occurs loose_path q k' p' \<Longrightarrow> 7 \<le> length p'"
    unfolding e occurs_def by (blast dest: path_like_length)
  show ?thesis
  proof (intro conjI allI impI)
    show "occurs loose_path q (length pre) m" using g by blast
  next
    fix k' p' assume "occurs loose_path q k' p'"
    with g show "length pre \<le> k'" by blast
  next
    fix k' p' assume o: "occurs loose_path q k' p'" and k: "k' = length pre"
    with g have "length m - 7 \<le> length p' - 7" by blast
    moreover from g have "7 \<le> length m" using l by blast
    moreover from o have "7 \<le> length p'" by (rule l)
    ultimately show "length m \<le> length p'" by linarith
  qed
qed

lemma loose_search_None:
  assumes "re_search True simple_pattern q = None"
  shows "\<not> occurs loose_path q k p"
proof -
  have e: "loose_path = path_like loose_sep loose_body"
    by (rule ext) (simp add: loose_path_def)
  show ?thesis
    unfolding e
    by (rule search_None_gen[OF _ assms]) (use loose_None in blast)
qed

lemma occurs_unique:
  "occurs good q k p \<Longrightarrow> occurs good q k p' \<Longrightarrow> length p = length p' \<Longrightarrow> p = p'"
  by (metis occurs_def)

lemma leftmost_unique:
  assumes a: "occurs good q k p"
    and b: "occurs good q (length pre) m"
    and ab: "k \<le> length pre \<and> (length pre = k \<longrightarrow> l1)"
    and ba: "length pre \<le> k \<and> (k = length pre \<longrightarrow> l2)"
    and len: "l1 \<Longrightarrow> l2 \<Longrightarrow> length m = length p"
  shows "m = p"
proof -
  from ab ba have k: "k = length pre" by simp
  with ab ba have "l1" "l2" by simp_all
  then have "length m = length p" by (rule len)
  with a b k show ?thesis by (metis occurs_def)
qed

text \<open>
  C4, as amended. Among the well-formed paths that stand in the query (letter case as
  re.IGNORECASE folds it), \<open>extract_video_path\<close> returns the one that starts leftmost
  and, of those starting there, the longest under the strict pattern; when the query
  holds no strict path, the leftmost and there the shortest under the loose pattern;
  and None when it holds neither. So the path the query contains is returned exactly
  when no well-formed path starts before it or extends it.
\<close>

theorem extract_video_path_leftmost:
  "(occurs strict_path q k p
      \<and> (\<forall>k' p'. occurs strict_path q k' p' \<longrightarrow> k \<le> k' \<and> (k' = k \<longrightarrow> length p' \<le> length p))
     \<longrightarrow> extract_video_path q = Some p)
   \<and> ((\<forall>k' p'. \<not> occurs strict_path q k' p')
      \<and> occurs loose_path q k p
      \<and> (\<forall>k' p'. occurs loose_path q k' p' \<longrightarrow> k \<le> k' \<and> (k' = k \<longrightarrow> length p \<le> length p'))
     \<longrightarrow> extract_video_path q = Some p)
   \<and> ((\<forall>k' p'. \<not> occurs strict_path q k' p' \<and> \<not> occurs loose_path q k' p')
     \<longrightarrow> extract_video_path q = None)"
proof (intro conjI impI)
  assume h: "occurs strict_path q k p
      \<and> (\<forall>k' p'. occurs strict_path q k' p' \<longrightarrow> k \<le> k' \<and> (k' = k \<longrightarrow> length p' \<le> length p))"
  then have oc: "occurs strict_path q k p" by blast
  show "extract_video_path q = Some p"
  proof (cases "re_search True strict_pattern q")
    case None
    from strict_search_None[OF None] oc show ?thesis by blast
  next
    case (Some t)
    then obtain pre m post where s: "re_search True strict_pattern q = Some (pre, m, post)"
      by (cases t) auto
    note snd = strict_search_sound[OF s]
    from snd have om: "occurs strict_path q (length pre) m" by blast
    from h om have 1: "k \<le> length pre \<and> (length pre = k \<longrightarrow> length m \<le> length p)" by blast
    from snd oc have 2: "length pre \<le> k \<and> (k = length pre \<longrightarrow> length p \<le> length m)" by blast
    have "m = p"
      by (rule leftmost_unique[OF oc om 1 2]) simp
    with s show ?thesis by (simp add: extract_video_path_def)
  qed
next
  assume h: "(\<forall>k' p'. \<not> occurs strict_path q k' p')
      \<and> occurs loose_path q k p
      \<and> (\<forall>k' p'. occurs loose_path q k' p' \<longrightarrow> k \<le> k' \<and> (k' = k \<longrightarrow> length p \<le> length p'))"
  then have oc: "occurs loose_path q k p" by blast
  have n: "re_search True strict_pattern q = None"
  proof (cases "re_search True strict_pattern q")
    case (Some t)
    then obtain pre m post where s: "re_search True strict_pattern q = Some (pre, m, post)"
      by (cases t) auto
    from strict_search_sound[OF s] h show ?thesis by blast
  qed simp
  show "extract_video_path q = Some p"
  proof (cases "re_search True simple_pattern q")
    case None
    from loose_search_None[OF None] oc show ?thesis by blast
  next
    case (Some t)
    then obtain pre m post where s: "re_search True simple_pattern q = Some (pre, m, post)"
      by (cases t) auto
    note snd = loose_search_sound[OF s]
    from snd have om: "occurs loose_path q (length pre) m" by blast
    from h om have 1: "k \<le> length pre \<and> (length pre = k \<longrightarrow> length p \<le> length m)" by blast
    from snd oc have 2: "length pre \<le> k \<and> (k = length pre \<longrightarrow> length m \<le> length p)" by blast
    have "m = p"
      by (rule leftmost_unique[OF oc om 1 2]) simp
    with s n show ?thesis by (simp add: extract_video_path_def)
  qed
next
  assume h: "\<forall>k' p'. \<not> occurs strict_path q k' p' \<and> \<not> occurs loose_path q k' p'"
  have n: "re_search True strict_pattern q = None"
  proof (cases "re_search True strict_pattern q")
    case (Some t)
    then obtain pre m post where s: "re_search True strict_pattern q = Some (pre, m, post)"
      by (cases t) auto
    from strict_search_sound[OF s] h show ?thesis by blast
  qed simp
  have l: "re_search True simple_pattern q = None"
  proof (cases "re_search True simple_pattern q")
    case (Some t)
    then obtain pre m post where s: "re_search True simple_pattern q = Some (pre, m, post)"
      by (cases t) auto
    from loose_search_sound[OF s] h show ?thesis by blast
  qed simp
  from n l show "extract_video_path q = None" by (simp add: extract_video_path_def)
qed

lemmas regex_eval = strict_pattern_def simple_pattern_def drive_letter_def lit_def video_exts_def
  illegal_chars_def in_ranges_def in_set_def case_variants_def ascii_def cp_def

lemma search_one_path:
  "re_search True strict_pattern query_one_path = Some (ascii ''Analyze '', example_path, [])"
  by (simp add: query_one_path_def example_path_def regex_eval)

lemma search_loose_only:
  "re_search True strict_pattern query_loose_only = None"
  "re_search True simple_pattern query_loose_only = Some ([], query_loose_only, [])"
  by (simp_all add: query_loose_only_def regex_eval)

lemma search_no_path:
  "re_search True strict_pattern query_no_path = None"
  "re_search True simple_pattern query_no_path = None"
  by (simp_all add: query_no_path_def regex_eval)

lemma search_kelvin:
  "re_search True strict_pattern query_kelvin = Some (ascii ''see '', kelvin_path, [])"
  by (simp add: query_kelvin_def kelvin_path_def regex_eval)

theorem extract_video_path_leftmost_witness:
  "extract_video_path query_one_path = Some example_path
   \<and> extract_video_path query_kelvin = Some kelvin_path
   \<and> extract_video_path query_loose_only = Some query_loose_only
   \<and> extract_video_path query_no_path = None"
proof (intro conjI)
  from strict_search_sound[OF search_one_path]
    extract_video_path_leftmost[of query_one_path "length (ascii ''Analyze '')" example_path,
      THEN conjunct1]
  show "extract_video_path query_one_path = Some example_path"
    by blast
next
  from strict_search_sound[OF search_kelvin]
    extract_video_path_leftmost[of query_kelvin "length (ascii ''see '')" kelvin_path,
      THEN conjunct1]
  show "extract_video_path query_kelvin = Some kelvin_path"
    by blast
next
  from strict_search_None[OF search_loose_only(1)] loose_search_sound[OF search_loose_only(2)]
    extract_video_path_leftmost[of query_loose_only "length ([] :: pystr)" query_loose_only,
      THEN conjunct2, THEN conjunct1]
  show "extract_video_path query_loose_only = Some query_loose_only"
    by blast
next
  from strict_search_None[OF search_no_path(1)] loose_search_None[OF search_no_path(2)]
    extract_video_path_leftmost[of query_no_path, THEN conjunct2, THEN conjunct2]
  show "extract_video_path query_no_path = None"
    by blast
qed

text \<open>
  C4 as stated fails: the query below starts with a well-formed path (drive C, a
  backslash, \<open>a.mp4\<close>), and the greedy body of the strict pattern runs on to the last
  extension of the line, so the text returned is longer than that path.
\<close>

theorem extract_video_path_not_exact:
  "occurs strict_path query_trailing_ext 0 short_path
   \<and> extract_video_path query_trailing_ext = Some query_trailing_ext
   \<and> query_trailing_ext \<noteq> short_path"
  by (simp add: query_trailing_ext_def short_path_def occurs_def strict_path_def path_like_def
      dot_ext_def drive_char_def is_letter_def fold_ext_def ascii_lower_def
      extract_video_path_def regex_eval)

section \<open>Properties of the question extraction\<close>

lemmas strip_eval = strip_def py_isspace_def

text \<open>
  C5. The question is claimed to be the query without the path that
  \<open>extract_video_path\<close> returns, the extension matched in any letter case. For the query
  below, which names the path of test_video.py, the path is found, and the substitution
  of line 76 (with re.IGNORECASE) leaves the word before it; but line 79 assigns the
  result of the same substitution without the flag, which removes nothing, and the
  whole query, path included, is returned as the question.
\<close>

theorem question_keeps_upper_case_path:
  "extract_video_path query_upper_ext = Some upper_ext_path
   \<and> strip (re_sub_empty True strict_pattern query_upper_ext) = ascii ''describe''
   \<and> extract_text_question query_upper_ext = query_upper_ext"
  by (simp add: query_upper_ext_def upper_ext_path_def extract_video_path_def
      extract_text_question_def strip_eval regex_eval)

text \<open>
  The fallback pattern takes no part in the question either: for a query that only the
  fallback pattern matches, the path returned is the whole query and so is the
  question.
\<close>

lemma question_ignores_fallback:
  "extract_video_path query_loose_only = Some query_loose_only
   \<and> extract_text_question query_loose_only = query_loose_only"
  by (simp add: query_loose_only_def extract_video_path_def extract_text_question_def
      strip_eval regex_eval)

section \<open>Properties of the orchestration\<close>

lemmas act_simps = Let_def ret_def raise_def lift_def bind_act_def call_def print_out_def first_item_def

lemma path_one: "extract_video_path query_one_path = Some example_path"
  by (simp only: extract_video_path_def search_one_path option.case prod.case)

lemma path_none: "extract_video_path query_no_path = None"
  by (simp only: extract_video_path_def search_no_path option.case)

lemma example_run_log:
  "tool_calls_of (snd (snd (process_query example_services query_one_path ((), [])))) =
       [CallTool ''inference_video'' (JDict [(''path'', JStr (utf8 example_path))]),
        CallTool ''inference_video'' (JDict [])]
   \<and> length (gateway_calls_of (snd (snd (process_query example_services query_one_path ((), []))))) = 2"
  by (simp add: process_query_def tool_round_def final_call_def inference_block_def
      encode_image_def act_simps
      example_services_def example_selection_def example_call_def example_answer_def
      example_json_loads_def path_one
      result_params_def video_info_def py_get_def path_value_def
      tool_calls_of_def gateway_calls_of_def is_tool_call_def is_gateway_call_def)

text \<open>
  C1 as stated fails: the model selects \<open>inference_video\<close> for the query below, and
  the Tool Host is invoked twice before the answer is returned, once by the block of
  lines 115 to 136 with the extracted path and once by line 160 with the model's own
  arguments.
\<close>

theorem process_query_calls_tool_twice:
  "fst (process_query example_services query_one_path ((), [])) = Inr (Some ''A clip.'')
   \<and> tool_calls_of (snd (snd (process_query example_services query_one_path ((), [])))) =
       [CallTool ''inference_video'' (JDict [(''path'', JStr (utf8 example_path))]),
        CallTool ''inference_video'' (JDict [])]"
  by (simp add: process_query_def tool_round_def final_call_def inference_block_def encode_image_def act_simps
      example_services_def example_selection_def example_call_def example_answer_def
      example_json_loads_def path_one
      result_params_def video_info_def py_get_def path_value_def
      tool_calls_of_def is_tool_call_def)

text \<open>
  C8 as stated fails: a video tool is selected for a query without a path, and the query
  ends with the TypeError of \<open>encode_image\<close>; the log holds no Tool Host invocation.
\<close>

theorem null_path_no_tool_call:
  "process_query example_services query_no_path ((), []) =
     (Inl TypeError, (),
      [ListTools, Print (ToolDescription example_tools),
       Create \<lparr>req_messages = [UserTurn (Text query_no_path)],
               req_tools = Some example_tools\<rparr>])"
  by (simp add: process_query_def tool_round_def final_call_def inference_block_def encode_image_def act_simps
      example_services_def example_selection_def example_call_def example_answer_def
      example_json_loads_def path_none)

lemmas log_simps = tool_calls_of_def gateway_calls_of_def is_tool_call_def is_gateway_call_def

lemma inference_block_log:
  assumes "inference_block sv q msgs (w, tr) = (r, w', tr')"
  shows "\<exists>new. tr' = tr @ new \<and> gateway_calls_of new = []
           \<and> (case r of
                 Inr _ \<Rightarrow> tool_calls_of new =
                   [CallTool ''inference_video''
                      (JDict [(''path'', path_value (extract_video_path q))])]
               | Inl _ \<Rightarrow> length (tool_calls_of new) \<le> 1)"
  using assms
  by (auto simp: inference_block_def encode_image_def act_simps log_simps
      split: option.splits sum.splits prod.splits)

lemma binarization_block_log:
  assumes "binarization_block sv q args msgs (w, tr) = (r, w', tr')"
  shows "\<exists>new. tr' = tr @ new \<and> gateway_calls_of new = []
           \<and> (case r of
                 Inr _ \<Rightarrow> \<exists>t. py_get args ''threshold'' (JInt 127) = Inr t
                   \<and> tool_calls_of new =
                       [CallTool ''process_video_binarization''
                          (JDict [(''path'', path_value (extract_video_path q)),
                                  (''threshold'', t)])]
               | Inl _ \<Rightarrow> length (tool_calls_of new) \<le> 1)"
  using assms
  by (auto simp: binarization_block_def encode_image_def act_simps log_simps
      split: option.splits sum.splits prod.splits)

lemma final_call_log:
  assumes "final_call sv first tc args msgs (w, tr) = (r, w', tr')"
  shows "\<exists>new. tr' = tr @ new \<and> tool_calls_of new = [CallTool (function_name tc) args]
           \<and> (gateway_calls_of new = []
                \<or> (\<exists>before req. new = before @ [Create req] \<and> gateway_calls_of before = []))"
  using assms
  by (auto simp: final_call_def act_simps log_simps
      split: list.splits sum.splits prod.splits)

lemma calls_append [simp]:
  "tool_calls_of (xs @ ys) = tool_calls_of xs @ tool_calls_of ys"
  "gateway_calls_of (xs @ ys) = gateway_calls_of xs @ gateway_calls_of ys"
  "tool_calls_of [] = []" "gateway_calls_of [] = []"
  by (simp_all add: log_simps)

lemma bind_act_cases:
  assumes "bind_act m f s = (r, s'')"
  obtains e where "m s = (Inl e, s'')" "r = Inl e"
  | a s' where "m s = (Inr a, s')" "f a s' = (r, s'')"
  using assms by (auto simp: bind_act_def split: prod.splits sum.splits)

lemma tool_round_log:
  assumes "tool_round sv q msgs first (w, tr) = (r, w', tr')"
  shows "\<exists>new. tr' = tr @ new \<and> length (tool_calls_of new) \<le> 2
           \<and> (gateway_calls_of new = [] \<or> round_shape sv q first new)"
proof -
  from assms[unfolded tool_round_def] show ?thesis
  proof (cases rule: bind_act_cases)
    case (1 e)
    then have "tr' = tr" by (auto simp: act_simps split: list.splits)
    then show ?thesis by simp
  next
    case (2 tc s1)
    then have s1: "s1 = (w, tr)" by (auto simp: act_simps split: list.splits)
    from 2(1) obtain tcs where tc: "tool_calls (message first) = tc # tcs"
      by (auto simp: act_simps split: list.splits)
    let ?name = "function_name tc"
    from 2(2)[unfolded Let_def s1] show ?thesis
    proof (cases rule: bind_act_cases)
      case (1 e)
      then have "tr' = tr" by (auto simp: act_simps)
      then show ?thesis by simp
    next
      case (2 args s2)
      then have s2: "s2 = (w, tr)" by (auto simp: act_simps)
      from 2(1) have ar: "json_loads sv (function_arguments tc) = Inr args"
        by (simp add: lift_def)
      let ?A = "CallTool ''inference_video'' (JDict [(''path'', path_value (extract_video_path q))])"
      let ?B = "\<lambda>t. CallTool ''process_video_binarization''
                    (JDict [(''path'', path_value (extract_video_path q)), (''threshold'', t)])"
      from 2(2)[unfolded s2] show ?thesis
      proof (cases rule: bind_act_cases)
        case (1 e)
        then have n: "?name = ''inference_video''"
          and b: "inference_block sv q msgs (w, tr) = (Inl e, w', tr')"
          by (auto simp: act_simps split: if_splits)
        from inference_block_log[OF b] show ?thesis by auto
      next
        case (2 msgs1 s3)
        obtain w3 tr3 where s3: "s3 = (w3, tr3)" by (cases s3)
        have A: "\<exists>n1. tr3 = tr @ n1 \<and> gateway_calls_of n1 = []
                  \<and> (if ?name = ''inference_video''
                      then tool_calls_of n1 = [?A] else tool_calls_of n1 = [])"
        proof (cases "?name = ''inference_video''")
          case True
          with 2(1) s3 have "inference_block sv q msgs (w, tr) = (Inr msgs1, w3, tr3)" by simp
          from inference_block_log[OF this] True show ?thesis by auto
        next
          case False
          with 2(1) s3 show ?thesis by (simp add: act_simps)
        qed
        from 2(2)[unfolded s3] show ?thesis
        proof (cases rule: bind_act_cases)
          case (1 e)
          then have n: "?name = ''process_video_binarization''"
            and b: "binarization_block sv q args msgs1 (w3, tr3) = (Inl e, w', tr')"
            by (auto simp: act_simps split: if_splits)
          from binarization_block_log[OF b] A n show ?thesis by auto
        next
          case (2 msgs2 s4)
          obtain w4 tr4 where s4: "s4 = (w4, tr4)" by (cases s4)
          have B: "\<exists>n2. tr4 = tr @ n2 \<and> gateway_calls_of n2 = []
                  \<and> (if ?name = ''inference_video'' then tool_calls_of n2 = [?A]
                      else if ?name = ''process_video_binarization''
                      then \<exists>t. py_get args ''threshold'' (JInt 127) = Inr t
                             \<and> tool_calls_of n2 = [?B t]
                      else tool_calls_of n2 = [])"
          proof (cases "?name = ''process_video_binarization''")
            case True
            with 2(1) s4 have "binarization_block sv q args msgs1 (w3, tr3) = (Inr msgs2, w4, tr4)"
              by simp
            from binarization_block_log[OF this] A True show ?thesis
              by auto
          next
            case False
            with 2(1) s4 have "tr4 = tr3" by (simp add: act_simps)
            with A False show ?thesis by auto
          qed
          then obtain n2 where n2: "tr4 = tr @ n2" "gateway_calls_of n2 = []"
            "if ?name = ''inference_video'' then tool_calls_of n2 = [?A]
             else if ?name = ''process_video_binarization''
             then \<exists>t. py_get args ''threshold'' (JInt 127) = Inr t \<and> tool_calls_of n2 = [?B t]
             else tool_calls_of n2 = []"
            by blast
          from final_call_log[OF 2(2)[unfolded s4]] obtain n3 where n3: "tr' = tr4 @ n3"
            "tool_calls_of n3 = [CallTool ?name args]"
            "gateway_calls_of n3 = []
              \<or> (\<exists>before req. n3 = before @ [Create req] \<and> gateway_calls_of before = [])"
            by blast
          have t: "tr' = tr @ (n2 @ n3)" using n2(1) n3(1) by simp
          have l: "length (tool_calls_of (n2 @ n3)) \<le> 2"
            using n2(3) n3(2) by (auto split: if_splits)
          have g: "gateway_calls_of (n2 @ n3) = [] \<or> round_shape sv q first (n2 @ n3)"
          proof (cases "gateway_calls_of n3 = []")
            case True
            with n2(2) show ?thesis by simp
          next
            case False
            with n3(3) obtain before req where b: "n3 = before @ [Create req]"
              "gateway_calls_of before = []" by blast
            from n3(2) b(1) have tb: "tool_calls_of before = [CallTool ?name args]"
              by (simp add: log_simps)
            have "round_shape sv q first (n2 @ n3)"
              unfolding round_shape_def
              apply (rule exI[of _ "n2 @ before"], rule exI[of _ req],
                  rule exI[of _ tc], rule exI[of _ tcs], rule exI[of _ args])
              using n2(2,3) b tb tc ar by (auto split: if_splits)
            then show ?thesis ..
          qed
          from t l g show ?thesis by blast
        qed
      qed
    qed
  qed
qed

lemma process_query_cases:
  assumes "process_query sv q (w, tr) = (r, w', tr')"
  obtains (no_tools) e w1 where "list_tools sv w = (Inl e, w1)" "tr' = tr @ [ListTools]"
  | (asked) ts w1 rest where
      "list_tools sv w = (Inr ts, w1)"
      "tr' = tr @ ([ListTools, Print (ToolDescription ts),
                   Create \<lparr>req_messages = [UserTurn (Text q)], req_tools = Some ts\<rparr>] @ rest)"
      "length (tool_calls_of rest) \<le> 2"
      "gateway_calls_of rest = []
       \<or> (\<exists>first others w2.
             create sv \<lparr>req_messages = [UserTurn (Text q)], req_tools = Some ts\<rparr> w1
               = (Inr (first # others), w2)
           \<and> finish_reason first = ''tool_calls'' \<and> round_shape sv q first rest)"
proof (cases "list_tools sv w")
  case (Pair lr w1)
  show ?thesis
  proof (cases lr)
    case (Inl e)
    with Pair assms have "tr' = tr @ [ListTools]"
      by (auto simp: process_query_def act_simps)
    with Pair Inl show ?thesis by (intro no_tools[of e w1]) simp_all
  next
    case (Inr ts)
    let ?req = "\<lparr>req_messages = [UserTurn (Text q)], req_tools = Some ts\<rparr>"
    let ?tr1 = "tr @ [ListTools, Print (ToolDescription ts), Create ?req]"
    obtain res w2 where c: "create sv ?req w1 = (res, w2)" by (cases "create sv ?req w1")
    let ?head = "[ListTools, Print (ToolDescription ts), Create ?req]"
    let ?shape = "\<lambda>rest. gateway_calls_of rest = []
       \<or> (\<exists>first others w2. create sv ?req w1 = (Inr (first # others), w2)
           \<and> finish_reason first = ''tool_calls'' \<and> round_shape sv q first rest)"
    have "\<exists>rest. tr' = tr @ (?head @ rest) \<and> length (tool_calls_of rest) \<le> 2 \<and> ?shape rest"
    proof (cases res)
      case (Inl e)
      with Pair Inr c assms have "tr' = ?tr1"
        by (auto simp: process_query_def act_simps)
      then show ?thesis by (intro exI[of _ "[]"]) simp
    next
      case r: (Inr choices)
      show ?thesis
      proof (cases choices)
        case Nil
        with Pair Inr c r assms have "tr' = ?tr1"
          by (auto simp: process_query_def act_simps)
        then show ?thesis by (intro exI[of _ "[]"]) simp
      next
        case (Cons first others)
        show ?thesis
        proof (cases "finish_reason first = ''tool_calls''")
          case False
          with Cons Pair Inr c r assms have "tr' = ?tr1"
            by (auto simp: process_query_def act_simps)
          then show ?thesis by (intro exI[of _ "[]"]) simp
        next
          case True
          with Cons Pair Inr c r assms
          have "tool_round sv q [UserTurn (Text q)] first (w2, ?tr1) = (r, w', tr')"
            by (auto simp: process_query_def act_simps)
          from tool_round_log[OF this] obtain new where n: "tr' = ?tr1 @ new"
            "length (tool_calls_of new) \<le> 2"
            "gateway_calls_of new = [] \<or> round_shape sv q first new"
            by blast
          from c r Cons have c': "create sv ?req w1 = (Inr (first # others), w2)" by simp
          from n(3) c' True have "?shape new" by blast
          with n(1,2) show ?thesis by (intro exI[of _ new]) simp
        qed
      qed
    qed
    then obtain rest where "tr' = tr @ (?head @ rest)" "length (tool_calls_of rest) \<le> 2"
      "?shape rest" by blast
    with Pair Inr show ?thesis by (intro asked[of ts w1 rest]) simp_all
  qed
qed

text \<open>
  C1, as amended. A query makes at most two gateway calls and at most two Tool Host
  invocations. When the second gateway call is made, the first response selected a tool
  call whose arguments parse, the second gateway call is the last interaction of the
  query, and the invocations before it are these: for \<open>inference_video\<close> the call with
  the path extracted from the query, then the call with the model's arguments; for
  \<open>process_video_binarization\<close> the call with the extracted path and the threshold of
  the model's arguments (127 when they give none), then the call with the model's
  arguments; for any other tool the one call with the model's arguments.
\<close>

theorem process_query_tool_calls:
  assumes "process_query sv q (w, tr) = (r, w', tr')"
  shows "\<exists>new. tr' = tr @ new
          \<and> length (gateway_calls_of new) \<le> 2 \<and> length (tool_calls_of new) \<le> 2
          \<and> (length (gateway_calls_of new) = 2 \<longrightarrow>
               (\<exists>ts w1 first others w2 tc tcs args before req.
                  list_tools sv w = (Inr ts, w1)
                \<and> create sv \<lparr>req_messages = [UserTurn (Text q)], req_tools = Some ts\<rparr> w1
                    = (Inr (first # others), w2)
                \<and> finish_reason first = ''tool_calls''
                \<and> tool_calls (message first) = tc # tcs
                \<and> json_loads sv (function_arguments tc) = Inr args
                \<and> new = before @ [Create req]
                \<and> (if function_name tc = ''inference_video''
                    then tool_calls_of before =
                           [CallTool ''inference_video''
                              (JDict [(''path'', path_value (extract_video_path q))]),
                            CallTool (function_name tc) args]
                    else if function_name tc = ''process_video_binarization''
                    then \<exists>t. py_get args ''threshold'' (JInt 127) = Inr t
                           \<and> tool_calls_of before =
                               [CallTool ''process_video_binarization''
                                  (JDict [(''path'', path_value (extract_video_path q)),
                                          (''threshold'', t)]),
                                CallTool (function_name tc) args]
                    else tool_calls_of before = [CallTool (function_name tc) args])))"
  using assms
proof (cases rule: process_query_cases)
  case (no_tools e w1)
  then show ?thesis by (intro exI[of _ "[ListTools]"]) (simp add: log_simps)
next
  case (asked ts w1 rest)
  let ?req = "\<lparr>req_messages = [UserTurn (Text q)], req_tools = Some ts\<rparr>"
  let ?head = "[ListTools, Print (ToolDescription ts), Create ?req]"
  note t = asked(2) and l = asked(3) and g = asked(4)
  have h: "tool_calls_of ?head = []" "gateway_calls_of ?head = [Create ?req]"
    by (simp_all add: log_simps)
  from g show ?thesis
  proof
    assume "gateway_calls_of rest = []"
    with t l h show ?thesis
      by (intro exI[of _ "?head @ rest"]) (simp del: append_Cons add: calls_append)
  next
    assume "\<exists>first others w2. create sv ?req w1 = (Inr (first # others), w2)
           \<and> finish_reason first = ''tool_calls'' \<and> round_shape sv q first rest"
    then obtain first others w2 where c: "create sv ?req w1 = (Inr (first # others), w2)"
      "finish_reason first = ''tool_calls''" and rs: "round_shape sv q first rest"
      by blast
    from rs obtain before req tc tcs args where b: "rest = before @ [Create req]"
      "gateway_calls_of before = []"
      "tool_calls (message first) = tc # tcs"
      "json_loads sv (function_arguments tc) = Inr args"
      "if function_name tc = ''inference_video''
       then tool_calls_of before =
              [CallTool ''inference_video''
                 (JDict [(''path'', path_value (extract_video_path q))]),
               CallTool (function_name tc) args]
       else if function_name tc = ''process_video_binarization''
       then \<exists>t. py_get args ''threshold'' (JInt 127) = Inr t
              \<and> tool_calls_of before =
                  [CallTool ''process_video_binarization''
                     (JDict [(''path'', path_value (extract_video_path q)),
                             (''threshold'', t)]),
                   CallTool (function_name tc) args]
       else tool_calls_of before = [CallTool (function_name tc) args]"
      unfolding round_shape_def by blast
    have g2: "gateway_calls_of (?head @ rest) = [Create ?req, Create req]"
      unfolding calls_append b(1) h using b(2) by (simp add: log_simps)
    have tb: "tool_calls_of (?head @ before) = tool_calls_of before"
      unfolding calls_append h by simp
    have tl: "tool_calls_of (?head @ rest) = tool_calls_of rest"
      unfolding calls_append h by simp
    have e: "?head @ rest = (?head @ before) @ [Create req]"
      using b(1) by simp
    show ?thesis
      apply (rule exI[of _ "?head @ rest"])
      apply (intro conjI)
         apply (rule t)
        apply (simp only: g2, simp)
       apply (simp only: tl, rule l)
      apply (rule impI)
      apply (rule exI[of _ ts], rule exI[of _ w1], rule exI[of _ first], rule exI[of _ others],
          rule exI[of _ w2], rule exI[of _ tc], rule exI[of _ tcs], rule exI[of _ args],
          rule exI[of _ "?head @ before"], rule exI[of _ req])
      apply (intro conjI)
            apply (rule asked(1))
           apply (rule c(1))
          apply (rule c(2))
         apply (rule b(3))
        apply (rule b(4))
       apply (rule e)
      apply (simp only: tb)
      apply (rule b(5))
      done
  qed
qed

theorem process_query_tool_calls_witness:
  "\<exists>r w' tr' before req.
      process_query example_services query_one_path ((), []) = (r, w', tr')
    \<and> length (gateway_calls_of tr') = 2
    \<and> tr' = before @ [Create req]
    \<and> tool_calls_of before =
        [CallTool ''inference_video'' (JDict [(''path'', path_value (Some example_path))]),
         CallTool ''inference_video'' (JDict [])]"
proof -
  obtain r w' tr' where p: "process_query example_services query_one_path ((), []) = (r, w', tr')"
    by (metis prod_cases3)
  have g: "length (gateway_calls_of tr') = 2"
    using example_run_log p by simp
  from process_query_tool_calls[OF p] g
  obtain ts w1 first others w2 tc tcs args before req where b:
    "create example_services
       \<lparr>req_messages = [UserTurn (Text query_one_path)], req_tools = Some ts\<rparr> w1
       = (Inr (first # others), w2)"
    "tool_calls (message first) = tc # tcs"
    "json_loads example_services (function_arguments tc) = Inr args"
    "tr' = before @ [Create req]"
    "if function_name tc = ''inference_video''
     then tool_calls_of before =
            [CallTool ''inference_video''
               (JDict [(''path'', path_value (extract_video_path query_one_path))]),
             CallTool (function_name tc) args]
     else if function_name tc = ''process_video_binarization''
     then \<exists>t. py_get args ''threshold'' (JInt 127) = Inr t
            \<and> tool_calls_of before =
                [CallTool ''process_video_binarization''
                   (JDict [(''path'', path_value (extract_video_path query_one_path)),
                           (''threshold'', t)]),
                 CallTool (function_name tc) args]
     else tool_calls_of before = [CallTool (function_name tc) args]"
    by auto
  from b(1) have f: "first = example_selection"
    by (simp add: example_services_def)
  with b(2) have tc: "tc = example_call"
    by (simp add: example_selection_def)
  with b(3) have ar: "args = JDict []"
    by (simp add: example_services_def example_call_def example_json_loads_def)
  from b(5) have "tool_calls_of before =
        [CallTool ''inference_video'' (JDict [(''path'', path_value (Some example_path))]),
         CallTool ''inference_video'' (JDict [])]"
    unfolding tc ar path_one by (simp add: example_call_def)
  with p g b(4) show ?thesis by blast
qed

text \<open>
  C8, as amended. When a video tool is selected, its arguments parse to a dictionary and
  no path can be extracted from the query, the query ends with the TypeError that
  \<open>encode_image\<close> raises on the null path: the Tool Host is not invoked and no second
  gateway call is made.
\<close>

theorem null_path_stops_before_tool_call:
  assumes "extract_video_path query = None"
    and "list_tools sv w = (Inr ts, w1)"
    and "create sv \<lparr>req_messages = [UserTurn (Text query)], req_tools = Some ts\<rparr> w1
           = (Inr (first # others), w2)"
    and "finish_reason first = ''tool_calls''"
    and "tool_calls (message first) = tc # tcs"
    and "function_name tc \<in> set video_tools"
    and "json_loads sv (function_arguments tc) = Inr (JDict args)"
  shows "process_query sv query (w, tr) =
           (Inl TypeError, w2,
            tr @ [ListTools, Print (ToolDescription ts),
                  Create \<lparr>req_messages = [UserTurn (Text query)], req_tools = Some ts\<rparr>])"
  using assms
  by (auto simp: process_query_def tool_round_def inference_block_def binarization_block_def
      encode_image_def py_get_def act_simps video_tools_def)

theorem null_path_stops_before_tool_call_witness:
  "extract_video_path query_no_path = None
   \<and> process_query example_services query_no_path ((), [Input]) =
       (Inl TypeError, (),
        [Input, ListTools, Print (ToolDescription example_tools),
         Create \<lparr>req_messages = [UserTurn (Text query_no_path)],
                 req_tools = Some example_tools\<rparr>])"
proof -
  have "process_query example_services query_no_path ((), [Input]) =
       (Inl TypeError, (),
        [Input] @ [ListTools, Print (ToolDescription example_tools),
         Create \<lparr>req_messages = [UserTurn (Text query_no_path)],
                 req_tools = Some example_tools\<rparr>])"
    by (rule null_path_stops_before_tool_call[where first = example_selection and others = "[]"
          and args = "[]" and tc = example_call and tcs = "[]" and ?w1.0 = "()"])
       (simp_all add: path_none example_services_def example_selection_def example_call_def
          example_json_loads_def video_tools_def)
  with path_none show ?thesis by simp
qed

lemma chat_iteration_asks_fresh:
  assumes "input_line sv w = (Inr line, wa)"
    and "map ascii_lower (strip line) \<noteq> ascii ''quit''"
    and "list_tools sv wa = (Inr ts, wb)"
  shows "\<exists>quit w'' rest. chat_iteration sv (w, tr) =
           (quit, w'', tr @ [Input, ListTools, Print (ToolDescription ts),
              Create \<lparr>req_messages = [UserTurn (Text (strip line))], req_tools = Some ts\<rparr>] @ rest)"
proof -
  obtain r w' tr' where p: "process_query sv (strip line) (wa, tr @ [Input]) = (r, w', tr')"
    by (metis prod_cases3)
  from p obtain rest where t: "tr' = tr @ [Input, ListTools, Print (ToolDescription ts),
              Create \<lparr>req_messages = [UserTurn (Text (strip line))], req_tools = Some ts\<rparr>] @ rest"
  proof (cases rule: process_query_cases)
    case (no_tools e w1)
    with assms(3) show ?thesis by simp
  next
    case (asked ts' w1 rest)
    with assms(3) have "ts' = ts" by simp
    with asked(2) that[of rest] show ?thesis by simp
  qed
  show ?thesis
  proof (cases r)
    case (Inl e)
    with p assms(1,2) have "chat_iteration sv (w, tr) = (False, w', tr' @ [Print (ErrorLine e)])"
      by (simp add: chat_iteration_def act_simps)
    with t show ?thesis
      by (intro exI[of _ False] exI[of _ w'] exI[of _ "rest @ [Print (ErrorLine e)]"]) simp
  next
    case (Inr a)
    with p assms(1,2) have "chat_iteration sv (w, tr) = (False, w', tr' @ [Print (Answer a)])"
      by (simp add: chat_iteration_def act_simps)
    with t show ?thesis
      by (intro exI[of _ False] exI[of _ w'] exI[of _ "rest @ [Print (Answer a)]"]) simp
  qed
qed

text \<open>
  C9. When the arguments of the selected tool call do not parse, the pass of the chat
  loop ends with one error line: no Tool Host invocation, no second gateway call, no
  retry, and the loop goes on. The next pass starts from the state of the outside world
  alone, and its first gateway request holds only the new user turn.
\<close>

theorem malformed_arguments_reported_once:
  assumes "input_line sv w = (Inr line, w0)"
    and "map ascii_lower (strip line) \<noteq> ascii ''quit''"
    and "list_tools sv w0 = (Inr ts, w1)"
    and "create sv \<lparr>req_messages = [UserTurn (Text (strip line))], req_tools = Some ts\<rparr> w1
           = (Inr (first # others), w2)"
    and "finish_reason first = ''tool_calls''"
    and "tool_calls (message first) = tc # tcs"
    and "json_loads sv (function_arguments tc) = Inl e"
    and "tr1 = tr @ [Input, ListTools, Print (ToolDescription ts),
              Create \<lparr>req_messages = [UserTurn (Text (strip line))], req_tools = Some ts\<rparr>,
              Print (ErrorLine e)]"
  shows "chat_iteration sv (w, tr) = (False, w2, tr1)
       \<and> chat_passes sv (Suc n) (w, tr) = chat_passes sv n (w2, tr1)
       \<and> (\<forall>line' wa ts' wb.
             input_line sv w2 = (Inr line', wa) \<and> map ascii_lower (strip line') \<noteq> ascii ''quit''
             \<and> list_tools sv wa = (Inr ts', wb)
           \<longrightarrow> (\<exists>quit w'' rest. chat_iteration sv (w2, tr1) =
                  (quit, w'', tr1 @ [Input, ListTools, Print (ToolDescription ts'),
                     Create \<lparr>req_messages = [UserTurn (Text (strip line'))],
                             req_tools = Some ts'\<rparr>] @ rest)))"
proof (intro conjI allI impI)
  show 1: "chat_iteration sv (w, tr) = (False, w2, tr1)"
    using assms
    by (simp add: chat_iteration_def process_query_def tool_round_def act_simps)
  then show "chat_passes sv (Suc n) (w, tr) = chat_passes sv n (w2, tr1)"
    by simp
next
  fix line' wa ts' wb
  assume "input_line sv w2 = (Inr line', wa) \<and> map ascii_lower (strip line') \<noteq> ascii ''quit''
             \<and> list_tools sv wa = (Inr ts', wb)"
  then show "\<exists>quit w'' rest. chat_iteration sv (w2, tr1) =
                  (quit, w'', tr1 @ [Input, ListTools, Print (ToolDescription ts'),
                     Create \<lparr>req_messages = [UserTurn (Text (strip line'))],
                             req_tools = Some ts'\<rparr>] @ rest)"
    using chat_iteration_asks_fresh[of sv w2 line' wa ts' wb tr1] by blast
qed

lemma strip_first: "strip (0x3000 # ascii ''first question '') = ascii ''first question''"
  by (simp add: strip_eval ascii_def cp_def)

lemma strip_second: "strip (ascii ''second question'') = ascii ''second question''"
  by (simp add: strip_eval ascii_def cp_def)

lemma not_quit:
  "map ascii_lower (ascii ''first question'') \<noteq> ascii ''quit''"
  "map ascii_lower (ascii ''second question'') \<noteq> ascii ''quit''"
  by (simp_all add: ascii_def)

text \<open>
  The run below is one with malformed arguments: the gateway's tool call carries the
  text \<open>{bad\<close>, which \<open>json.loads\<close> rejects.
\<close>

theorem malformed_arguments_reported_once_witness:
  "function_arguments malformed_call = ''{bad''
   \<and> chat_iteration scripted_services (0, []) = (False, 1, first_pass_log)
   \<and> chat_passes scripted_services (Suc 1) (0, []) = chat_passes scripted_services 1 (1, first_pass_log)
   \<and> (\<exists>quit w'' rest. chat_iteration scripted_services (1, first_pass_log) =
         (quit, w'', first_pass_log @ [Input, ListTools, Print (ToolDescription example_tools),
            Create \<lparr>req_messages = [UserTurn (Text (ascii ''second question''))],
                    req_tools = Some example_tools\<rparr>] @ rest))"
proof -
  let ?line = "0x3000 # ascii ''first question ''"
  have a: "input_line scripted_services 0 = (Inr ?line, 1)"
    by (simp add: scripted_services_def)
  have b: "map ascii_lower (strip ?line) \<noteq> ascii ''quit''"
    unfolding strip_first by (rule not_quit)
  have c: "list_tools scripted_services 1 = (Inr example_tools, 1)"
    by (simp add: scripted_services_def)
  have d: "create scripted_services
             \<lparr>req_messages = [UserTurn (Text (strip ?line))],
              req_tools = Some example_tools\<rparr> 1 = (Inr (malformed_selection # []), 1)"
    by (simp add: scripted_services_def)
  have e: "finish_reason malformed_selection = ''tool_calls''"
    "tool_calls (message malformed_selection) = malformed_call # []"
    by (simp_all add: malformed_selection_def)
  have f: "json_loads scripted_services (function_arguments malformed_call) = Inl JSONDecodeError"
    by (simp add: scripted_services_def malformed_call_def example_json_loads_def)
  have g: "first_pass_log = [] @ [Input, ListTools, Print (ToolDescription example_tools),
      Create \<lparr>req_messages = [UserTurn (Text (strip ?line))],
              req_tools = Some example_tools\<rparr>,
      Print (ErrorLine JSONDecodeError)]"
    unfolding strip_first by (simp add: first_pass_log_def)
  note main = malformed_arguments_reported_once[OF a b c d e f g, of 1]
  have a2: "input_line scripted_services 1 = (Inr (ascii ''second question''), 2)"
    by (simp add: scripted_services_def)
  have b2: "map ascii_lower (strip (ascii ''second question'')) \<noteq> ascii ''quit''"
    unfolding strip_second by (rule not_quit)
  have c2: "list_tools scripted_services 2 = (Inr example_tools, 2)"
    by (simp add: scripted_services_def)
  from main a2 b2 c2
  have "\<exists>quit w'' rest. chat_iteration scripted_services (1, first_pass_log) =
         (quit, w'', first_pass_log @ [Input, ListTools, Print (ToolDescription example_tools),
            Create \<lparr>req_messages = [UserTurn (Text (strip (ascii ''second question'')))],
                    req_tools = Some example_tools\<rparr>] @ rest)"
    by blast
  moreover have "function_arguments malformed_call = ''{bad''"
    by (simp add: malformed_call_def)
  ultimately show ?thesis
    using main unfolding strip_second by blast
qed

end
